theory Spec2Isabelle
  imports Complex_Main
begin

section \<open>ButterComp2: the data model\<close>

text \<open>
  The engine of \<^verbatim>\<open>src/cpp/buttercomp2.cpp\<close>. Conventions of the embedding:
  \<^item> a C \<^verbatim>\<open>double\<close> held in the state or computed by the per-sample algorithm is a
    \<^typ>\<open>real\<close>: the arithmetic of doubles is taken as exact, so its rounding (relative
    error \<open>2^-53\<close>), overflow, infinities and NaN are not part of the model. A division
    by zero, which yields an infinity or NaN in C, is the totalised division of HOL
    here. The code leaves the finite numbers at a sample rate of zero
    (\<^verbatim>\<open>1.0 / 0.0\<close>) and at positive sample rates below \<open>0.001\<close>, where the control
    values grow without bound; the statements about the samples written are therefore
    made for a sample rate of at least \<open>0.001\<close> and states reached from creation, where
    every divisor is at least 1 and the state is bounded (section C10);
  \<^item> the conversion \<^verbatim>\<open>(float)output_sample\<close> of the store is \<open>float_store\<close>, the rounding
    to the nearest single-precision number; the conversion of a sample read from a
    buffer to \<^verbatim>\<open>double\<close> is exact;
  \<^item> the argument of a parameter setter is a \<open>cdouble\<close>, which adds the special values
    to the finite ones, because the setters are specified on them;
  \<^item> an array \<^verbatim>\<open>double a[2]\<close> is a function from the index to the value; only the
    indices 0 (left) and 1 (right) are read or written;
  \<^item> a pointer that may be null is an \<open>option\<close>; the two sample buffers are lists
    and are assumed not to overlap in memory;
  \<^item> \<^verbatim>\<open>rand()\<close> reads and advances a hidden global generator: its state is the
    stream of the values it is going to return, and \<^verbatim>\<open>RAND_MAX\<close>, which the C
    library fixes, is a parameter \<open>rmax\<close>.
\<close>

record ButterComp2State =
  sample_rate :: real
  compress :: real
  "output" :: real
  dry_wet :: real
  control_A_pos :: "nat \<Rightarrow> real"
  control_A_neg :: "nat \<Rightarrow> real"
  control_B_pos :: "nat \<Rightarrow> real"
  control_B_neg :: "nat \<Rightarrow> real"
  target_pos :: "nat \<Rightarrow> real"
  target_neg :: "nat \<Rightarrow> real"
  avg_A :: "nat \<Rightarrow> real"
  avg_B :: "nat \<Rightarrow> real"
  dyn_A :: "nat \<Rightarrow> real"
  dyn_B :: "nat \<Rightarrow> real"
  fpflip :: int

text \<open>What \<^verbatim>\<open>calloc(1, sizeof(ButterComp2State))\<close> returns: a null pointer when the
  allocation fails, a state of zero bytes otherwise.\<close>

definition zeroed :: ButterComp2State where
  "zeroed = \<lparr> sample_rate = 0, compress = 0, output = 0, dry_wet = 0,
      control_A_pos = (\<lambda>_. 0), control_A_neg = (\<lambda>_. 0),
      control_B_pos = (\<lambda>_. 0), control_B_neg = (\<lambda>_. 0),
      target_pos = (\<lambda>_. 0), target_neg = (\<lambda>_. 0),
      avg_A = (\<lambda>_. 0), avg_B = (\<lambda>_. 0),
      dyn_A = (\<lambda>_. 0), dyn_B = (\<lambda>_. 0), fpflip = 0 \<rparr>"

definition calloc_state :: "bool \<Rightarrow> ButterComp2State option" where
  "calloc_state alloc_ok = (if alloc_ok then Some zeroed else None)"

section \<open>Creation, parameters, reset\<close>

definition buttercomp2_create :: "bool \<Rightarrow> real \<Rightarrow> ButterComp2State option" where
  "buttercomp2_create alloc_ok sr =
     (case calloc_state alloc_ok of
        None \<Rightarrow> None
      | Some state \<Rightarrow>
          Some (state\<lparr> sample_rate := sr, compress := 0, output := 0.5, dry_wet := 1,
                       fpflip := 1 \<rparr>))"

text \<open>The argument of a setter: any value of a C \<^verbatim>\<open>double\<close>. The comparison \<open>dless\<close> is
  the one of IEEE 754 (false as soon as one side is NaN), and \<open>std_min\<close>, \<open>std_max\<close>
  are the templates of \<^verbatim>\<open><algorithm>\<close>: \<^verbatim>\<open>min(a,b) = (b < a) ? b : a\<close> and
  \<^verbatim>\<open>max(a,b) = (a < b) ? b : a\<close>.\<close>

datatype cdouble = Finite real | PosInf | NegInf | NaN

fun dless :: "cdouble \<Rightarrow> cdouble \<Rightarrow> bool" where
  "dless NaN _ = False"
| "dless _ NaN = False"
| "dless (Finite a) (Finite b) = (a < b)"
| "dless (Finite _) PosInf = True"
| "dless (Finite _) NegInf = False"
| "dless PosInf _ = False"
| "dless NegInf NegInf = False"
| "dless NegInf _ = True"

definition std_min :: "cdouble \<Rightarrow> cdouble \<Rightarrow> cdouble" where
  "std_min a b = (if dless b a then b else a)"

definition std_max :: "cdouble \<Rightarrow> cdouble \<Rightarrow> cdouble" where
  "std_max a b = (if dless a b then b else a)"

text \<open>The value a setter stores. The state holds reals, so the clamped value is read
  back with \<open>stored\<close>, which is given on finite values only: \<open>clamp01\<close> returns no other
  (lemma \<open>clamp01_cases\<close> below).\<close>

definition clamp01 :: "cdouble \<Rightarrow> cdouble" where
  "clamp01 v = std_max (Finite 0) (std_min (Finite 1) v)"

fun stored :: "cdouble \<Rightarrow> real" where
  "stored (Finite r) = r"

definition buttercomp2_set_compress ::
  "ButterComp2State option \<Rightarrow> cdouble \<Rightarrow> ButterComp2State option" where
  "buttercomp2_set_compress state v =
     (case state of
        None \<Rightarrow> None
      | Some s \<Rightarrow> Some (s\<lparr> compress := stored (clamp01 v) \<rparr>))"

definition buttercomp2_set_output ::
  "ButterComp2State option \<Rightarrow> cdouble \<Rightarrow> ButterComp2State option" where
  "buttercomp2_set_output state v =
     (case state of
        None \<Rightarrow> None
      | Some s \<Rightarrow> Some (s\<lparr> output := stored (clamp01 v) \<rparr>))"

definition buttercomp2_set_dry_wet ::
  "ButterComp2State option \<Rightarrow> cdouble \<Rightarrow> ButterComp2State option" where
  "buttercomp2_set_dry_wet state v =
     (case state of
        None \<Rightarrow> None
      | Some s \<Rightarrow> Some (s\<lparr> dry_wet := stored (clamp01 v) \<rparr>))"

text \<open>One round of the loop of \<^verbatim>\<open>buttercomp2_reset\<close>, and the loop over both channels.\<close>

definition reset_channel :: "nat \<Rightarrow> ButterComp2State \<Rightarrow> ButterComp2State" where
  "reset_channel ch s =
     s\<lparr> control_A_pos := (control_A_pos s)(ch := 0),
        control_A_neg := (control_A_neg s)(ch := 0),
        control_B_pos := (control_B_pos s)(ch := 0),
        control_B_neg := (control_B_neg s)(ch := 0),
        target_pos := (target_pos s)(ch := 0),
        target_neg := (target_neg s)(ch := 0),
        avg_A := (avg_A s)(ch := 0),
        avg_B := (avg_B s)(ch := 0),
        dyn_A := (dyn_A s)(ch := 0),
        dyn_B := (dyn_B s)(ch := 0) \<rparr>"

definition buttercomp2_reset :: "ButterComp2State option \<Rightarrow> ButterComp2State option" where
  "buttercomp2_reset state =
     (case state of
        None \<Rightarrow> None
      | Some s \<Rightarrow> Some (fold reset_channel [0..<2] s))"

section \<open>The per-sample algorithm\<close>

text \<open>The generator behind \<^verbatim>\<open>rand()\<close>: the stream of its future values.\<close>

type_synonym rng = "nat \<Rightarrow> int"

definition rand :: "rng \<Rightarrow> int \<times> rng" where
  "rand g = (g 0, \<lambda>k. g (Suc k))"

text \<open>The locals that \<^verbatim>\<open>buttercomp2_process_stereo\<close> computes before its loop.\<close>

record locals =
  compress_amount :: real
  output_gain :: real
  wet :: real
  dry :: real
  release_speed :: real

definition process_locals :: "ButterComp2State \<Rightarrow> locals" where
  "process_locals state =
     (let compress_amount = compress state * 14;
          output_gain = output state * 2;
          wet = dry_wet state;
          dry = 1 - wet;
          one_over_sample_rate = 1 / sample_rate state;
          release_speed = 0.001 * one_over_sample_rate
      in \<lparr> compress_amount = compress_amount, output_gain = output_gain,
           wet = wet, dry = dry, release_speed = release_speed \<rparr>)"

text \<open>The body of the channel loop, a stage for each commented block of the source.
  Every stage takes the channel index \<open>ch\<close> and the working sample.\<close>

definition input_conditioning :: "locals \<Rightarrow> real \<Rightarrow> real" where
  "input_conditioning K input_sample = input_sample * (1 + compress_amount K * 0.1)"

definition control_smoothing :: "nat \<Rightarrow> real \<Rightarrow> ButterComp2State \<Rightarrow> ButterComp2State" where
  "control_smoothing ch input_sample state =
     (let pos_target = \<bar>input_sample\<bar>;
          neg_target = - \<bar>input_sample\<bar>;
          state = state\<lparr> target_pos :=
                    (target_pos state)(ch := target_pos state ch * 0.999 + pos_target * 0.001) \<rparr>;
          state = state\<lparr> target_neg :=
                    (target_neg state)(ch := target_neg state ch * 0.999 + neg_target * 0.001) \<rparr>
      in state)"

definition apply_compression ::
  "locals \<Rightarrow> nat \<Rightarrow> real \<Rightarrow> ButterComp2State \<Rightarrow> real \<times> ButterComp2State" where
  "apply_compression K ch input_sample state =
     (let control_A = target_pos state ch * compress_amount K * 0.1;
          control_B = target_neg state ch * compress_amount K * 0.1
      in if input_sample > 0 then
           (let state = state\<lparr> control_A_pos := (control_A_pos state)
                          (ch := control_A_pos state ch
                                 + (control_A - control_A_pos state ch) * release_speed K) \<rparr>
            in (input_sample / (1 + control_A_pos state ch), state))
         else
           (let state = state\<lparr> control_A_neg := (control_A_neg state)
                          (ch := control_A_neg state ch
                                 + (control_B - control_A_neg state ch) * release_speed K) \<rparr>
            in (input_sample / (1 + \<bar>control_A_neg state ch\<bar>), state)))"

definition second_stage_envelope :: "nat \<Rightarrow> real \<Rightarrow> ButterComp2State \<Rightarrow> ButterComp2State" where
  "second_stage_envelope ch abs_sample state =
     (if abs_sample > avg_A state ch
      then state\<lparr> avg_A := (avg_A state)(ch := abs_sample) \<rparr>
      else state\<lparr> avg_A := (avg_A state)(ch := avg_A state ch * 0.999 + abs_sample * 0.001) \<rparr>)"

definition dynamic_compression ::
  "locals \<Rightarrow> nat \<Rightarrow> real \<Rightarrow> real \<Rightarrow> ButterComp2State \<Rightarrow> real" where
  "dynamic_compression K ch abs_sample input_sample state =
     (let release_mod = 1 + avg_A state ch * compress_amount K * 0.01;
          dynamic_release = release_speed K * release_mod;
          comp_ratio = 1 + compress_amount K * 0.1
      in if abs_sample > avg_A state ch * 1.1 then input_sample / comp_ratio
         else input_sample)"

definition soft_limit :: "real \<Rightarrow> real" where
  "soft_limit input_sample =
     (let input_sample = (if input_sample > 1 then 1 else input_sample);
          input_sample = (if input_sample < - 1 then - 1 else input_sample)
      in input_sample)"

definition dither ::
  "int \<Rightarrow> real \<Rightarrow> ButterComp2State \<Rightarrow> rng \<Rightarrow> real \<times> ButterComp2State \<times> rng" where
  "dither rmax output_sample state g =
     (let state = state\<lparr> fpflip := (if fpflip state = 0 then 1 else 0) \<rparr>
      in if fpflip state \<noteq> 0 then
           (let (r, g) = rand g
            in (output_sample + (real_of_int r / real_of_int rmax - 0.5) * (1 / 10 ^ 10),
                state, g))
         else (output_sample, state, g))"

definition process_sample ::
  "int \<Rightarrow> locals \<Rightarrow> nat \<Rightarrow> ButterComp2State \<Rightarrow> real \<Rightarrow> rng \<Rightarrow> real \<times> ButterComp2State \<times> rng" where
  "process_sample rmax K ch state x g =
     (let input_sample = x;
          dry_sample = input_sample;
          input_sample = input_conditioning K input_sample;
          state = control_smoothing ch input_sample state;
          (input_sample, state) = apply_compression K ch input_sample state;
          abs_sample = \<bar>input_sample\<bar>;
          state = second_stage_envelope ch abs_sample state;
          input_sample = dynamic_compression K ch abs_sample input_sample state;
          input_sample = input_sample * output_gain K;
          input_sample = soft_limit input_sample;
          output_sample = dry_sample * dry K + input_sample * wet K
      in dither rmax output_sample state g)"

text \<open>The store \<^verbatim>\<open>*channels[ch] = (float)output_sample\<close>: IEEE 754 rounding to the nearest
  single-precision number, ties to the even significand. A single-precision number
  has 24 significant bits, so the spacing of the numbers around \<open>x\<close> is \<open>2^(e - 23)\<close>
  with \<open>e = floor (log2 |x|)\<close>, and \<open>2^-149\<close> below the smallest normal number \<open>2^-126\<close>.
  (Beyond the largest single-precision number, about \<open>3.4e38\<close>, the conversion gives an
  infinity, which the model does not hold.)\<close>

definition round_even :: "real \<Rightarrow> int" where
  "round_even r =
     (let f = \<lfloor>r\<rfloor>; d = r - of_int f
      in if d < 1 / 2 then f else if d > 1 / 2 then f + 1 else if even f then f else f + 1)"

definition float_store :: "real \<Rightarrow> real" where
  "float_store x =
     (if x = 0 then 0
      else (let e = max \<lfloor>log 2 \<bar>x\<bar>\<rfloor> (- 126);
                ulp = 2 powi (e - 23)
            in of_int (round_even (x / ulp)) * ulp))"

text \<open>The sample loop. At index \<open>i\<close> the left sample is processed and written back, then
  the right one. Reading past the end of a buffer is undefined behaviour in C: the
  model returns \<open>None\<close> there.\<close>

function process_loop ::
  "int \<Rightarrow> locals \<Rightarrow> nat \<Rightarrow> int \<Rightarrow> ButterComp2State \<Rightarrow> real list \<Rightarrow> real list \<Rightarrow> rng
   \<Rightarrow> (ButterComp2State \<times> real list \<times> real list \<times> rng) option" where
  "process_loop rmax K i num_samples state left right g =
     (if int i < num_samples then
        (if i < length left \<and> i < length right then
           (let (l, state, g) = process_sample rmax K 0 state (left ! i) g;
                left = left[i := float_store l];
                (r, state, g) = process_sample rmax K 1 state (right ! i) g;
                right = right[i := float_store r]
            in process_loop rmax K (Suc i) num_samples state left right g)
         else None)
      else Some (state, left, right, g))"
  by pat_completeness auto
termination
  by (relation "measure (\<lambda>(rmax, K, i, n, state, left, right, g). nat (n - int i))") auto

declare process_loop.simps [simp del]

definition buttercomp2_process_stereo ::
  "int \<Rightarrow> ButterComp2State option \<Rightarrow> real list option \<Rightarrow> real list option \<Rightarrow> int \<Rightarrow> rng
   \<Rightarrow> (ButterComp2State option \<times> real list option \<times> real list option \<times> rng) option" where
  "buttercomp2_process_stereo rmax state left_channel right_channel num_samples g =
     (case (state, left_channel, right_channel) of
        (Some s, Some left, Some right) \<Rightarrow>
          map_option (\<lambda>(s', left', right', g'). (Some s', Some left', Some right', g'))
            (process_loop rmax (process_locals s) 0 num_samples s left right g)
      | _ \<Rightarrow> Some (state, left_channel, right_channel, g))"

section \<open>Predicates used by the statements\<close>

text \<open>\<^verbatim>\<open>rand()\<close> returns a value between 0 and \<^verbatim>\<open>RAND_MAX\<close>.\<close>

definition rng_ok :: "int \<Rightarrow> rng \<Rightarrow> bool" where
  "rng_ok rmax g \<longleftrightarrow> (\<forall>k. 0 \<le> g k \<and> g k \<le> rmax)"

definition zero_rng :: rng where
  "zero_rng = (\<lambda>_. 0)"

definition full_rng :: rng where
  "full_rng = (\<lambda>_. 32767)"

text \<open>What a call of \<open>buttercomp2_process_stereo\<close> leaves in the state and in the two
  buffers.\<close>

definition result_state ::
  "(ButterComp2State option \<times> real list option \<times> real list option \<times> rng) option
   \<Rightarrow> ButterComp2State option" where
  "result_state res = (case res of None \<Rightarrow> None | Some (s, l, r, g) \<Rightarrow> s)"

definition result_left ::
  "(ButterComp2State option \<times> real list option \<times> real list option \<times> rng) option
   \<Rightarrow> real list option" where
  "result_left res = (case res of None \<Rightarrow> None | Some (s, l, r, g) \<Rightarrow> l)"

definition result_right ::
  "(ButterComp2State option \<times> real list option \<times> real list option \<times> rng) option
   \<Rightarrow> real list option" where
  "result_right res = (case res of None \<Rightarrow> None | Some (s, l, r, g) \<Rightarrow> r)"

text \<open>The divisor \<^verbatim>\<open>1.0 + state->control_A_pos[ch]\<close> as a state holds it.\<close>

definition pos_divisor :: "ButterComp2State option \<Rightarrow> nat \<Rightarrow> real option" where
  "pos_divisor state ch = map_option (\<lambda>s. 1 + control_A_pos s ch) state"

text \<open>The instance that creation returns at 48 kHz, and that instance after
  \<^verbatim>\<open>buttercomp2_set_compress(state, 1.0)\<close>.\<close>

definition state_48k :: ButterComp2State where
  "state_48k = zeroed\<lparr> sample_rate := 48000, compress := 0, output := 0.5, dry_wet := 1,
                        fpflip := 1 \<rparr>"

definition state_48k_driven :: ButterComp2State where
  "state_48k_driven = state_48k\<lparr> compress := 1 \<rparr>"

text \<open>Step 6 of the specification, in its words. The envelope is a fast-attack,
  slow-release follower of the absolute value: it snaps to a larger value and decays by
  the \<open>0.999/0.001\<close> filter otherwise. A sample whose absolute value exceeds 1.1 times the
  tracked level (``a transient 10% above the tracked level'', the envelope that the
  samples before this one have left) is divided by \<open>1 + compressAmount * 0.1\<close>.
  \<open>spec_second_stage\<close> returns the sample and the new envelope.\<close>

definition spec_envelope_follower :: "real \<Rightarrow> real \<Rightarrow> real" where
  "spec_envelope_follower envelope a =
     (if a > envelope then a else envelope * 0.999 + a * 0.001)"

definition spec_transient_division :: "real \<Rightarrow> real \<Rightarrow> real \<Rightarrow> real" where
  "spec_transient_division compressAmount level x =
     (if \<bar>x\<bar> > level * 1.1 then x / (1 + compressAmount * 0.1) else x)"

definition spec_second_stage :: "real \<Rightarrow> real \<Rightarrow> real \<Rightarrow> real \<times> real" where
  "spec_second_stage compressAmount envelope x =
     (spec_transient_division compressAmount envelope x,
      spec_envelope_follower envelope \<bar>x\<bar>)"

text \<open>Bounds on the running state of a channel when every input sample has absolute
  value at most \<open>M\<close>: the conditioned sample is at most \<open>2.4 * M\<close> (the factor is
  \<open>1 + 14 * 0.1\<close>), and a control value at most \<open>14 * 0.1\<close> times that. The fields that
  \<open>buttercomp2_process_stereo\<close> never writes stay zero.\<close>

definition channel_ok :: "real \<Rightarrow> ButterComp2State \<Rightarrow> nat \<Rightarrow> bool" where
  "channel_ok M s ch \<longleftrightarrow>
     0 \<le> target_pos s ch \<and> target_pos s ch \<le> 2.4 * M \<and>
     - (2.4 * M) \<le> target_neg s ch \<and> target_neg s ch \<le> 0 \<and>
     0 \<le> control_A_pos s ch \<and> control_A_pos s ch \<le> 3.36 * M \<and>
     - (3.36 * M) \<le> control_A_neg s ch \<and> control_A_neg s ch \<le> 0 \<and>
     0 \<le> avg_A s ch \<and> avg_A s ch \<le> 2.4 * M \<and>
     control_B_pos s ch = 0 \<and> control_B_neg s ch = 0 \<and>
     avg_B s ch = 0 \<and> dyn_A s ch = 0 \<and> dyn_B s ch = 0"

definition params_ok :: "ButterComp2State \<Rightarrow> bool" where
  "params_ok s \<longleftrightarrow>
     0 \<le> compress s \<and> compress s \<le> 1 \<and> 0 \<le> output s \<and> output s \<le> 1 \<and>
     0 \<le> dry_wet s \<and> dry_wet s \<le> 1"

definition state_ok :: "real \<Rightarrow> real \<Rightarrow> ButterComp2State \<Rightarrow> bool" where
  "state_ok sr M s \<longleftrightarrow>
     sample_rate s = sr \<and> params_ok s \<and> channel_ok M s 0 \<and> channel_ok M s 1"

definition locals_ok :: "locals \<Rightarrow> bool" where
  "locals_ok K \<longleftrightarrow>
     0 \<le> compress_amount K \<and> compress_amount K \<le> 14 \<and>
     0 \<le> release_speed K \<and> release_speed K \<le> 1"

text \<open>The states of an instance created at sample rate \<open>sr\<close> (the allocation having
  succeeded) that setters, resets and calls of \<open>buttercomp2_process_stereo\<close> lead to,
  when every sample of every buffer has absolute value at most \<open>M\<close> and the buffers
  hold the \<open>n\<close> samples asked for.\<close>

inductive reachable :: "real \<Rightarrow> real \<Rightarrow> ButterComp2State \<Rightarrow> bool" for sr M where
  create: "buttercomp2_create True sr = Some s \<Longrightarrow> reachable sr M s"
| set_compress: "reachable sr M s \<Longrightarrow> buttercomp2_set_compress (Some s) v = Some s' \<Longrightarrow>
     reachable sr M s'"
| set_output: "reachable sr M s \<Longrightarrow> buttercomp2_set_output (Some s) v = Some s' \<Longrightarrow>
     reachable sr M s'"
| set_dry_wet: "reachable sr M s \<Longrightarrow> buttercomp2_set_dry_wet (Some s) v = Some s' \<Longrightarrow>
     reachable sr M s'"
| reset: "reachable sr M s \<Longrightarrow> buttercomp2_reset (Some s) = Some s' \<Longrightarrow> reachable sr M s'"
| process: "reachable sr M s \<Longrightarrow> n \<le> int (length L) \<Longrightarrow> n \<le> int (length R) \<Longrightarrow>
     \<forall>x \<in> set L \<union> set R. \<bar>x\<bar> \<le> M \<Longrightarrow>
     buttercomp2_process_stereo rmax (Some s) (Some L) (Some R) n g
       = Some (Some s', L', R', g') \<Longrightarrow>
     reachable sr M s'"

section \<open>Basic facts\<close>

lemma create_Some:
  "buttercomp2_create True sr =
     Some (zeroed\<lparr> sample_rate := sr, compress := 0, output := 0.5, dry_wet := 1, fpflip := 1 \<rparr>)"
  by (simp add: buttercomp2_create_def calloc_state_def)

lemma clamp01_cases:
  "clamp01 v = (case v of Finite r \<Rightarrow> Finite (if r < 0 then 0 else if 1 < r then 1 else r)
      | PosInf \<Rightarrow> Finite 1 | NegInf \<Rightarrow> Finite 0 | NaN \<Rightarrow> Finite 1)"
  by (cases v) (auto simp: clamp01_def std_min_def std_max_def)

lemma stored_clamp01: "0 \<le> stored (clamp01 v) \<and> stored (clamp01 v) \<le> 1"
  by (cases v) (auto simp: clamp01_cases)

lemma reset_Some: "buttercomp2_reset (Some s) = Some (s\<lparr> control_A_pos := (control_A_pos s)(0 := 0, 1 := 0),
        control_A_neg := (control_A_neg s)(0 := 0, 1 := 0),
        control_B_pos := (control_B_pos s)(0 := 0, 1 := 0),
        control_B_neg := (control_B_neg s)(0 := 0, 1 := 0),
        target_pos := (target_pos s)(0 := 0, 1 := 0),
        target_neg := (target_neg s)(0 := 0, 1 := 0),
        avg_A := (avg_A s)(0 := 0, 1 := 0),
        avg_B := (avg_B s)(0 := 0, 1 := 0),
        dyn_A := (dyn_A s)(0 := 0, 1 := 0),
        dyn_B := (dyn_B s)(0 := 0, 1 := 0) \<rparr>)"
  by (simp add: buttercomp2_reset_def reset_channel_def numeral_2_eq_2 upt_rec)

section \<open>The float store\<close>

text \<open>The rounding moves a value by at most half the spacing, is evaluated from the
  binade of its argument, and keeps a value of the unit interval, widened by the
  dither, inside the unit interval.\<close>

lemma round_even_error: "\<bar>of_int (round_even r) - r\<bar> \<le> 1 / 2"
proof -
  have "of_int \<lfloor>r\<rfloor> \<le> r" "r < of_int \<lfloor>r\<rfloor> + 1" by linarith+
  then show ?thesis by (auto simp: round_even_def Let_def)
qed

lemma round_even_of_int: "round_even (of_int k) = k"
  by (simp add: round_even_def Let_def)

lemma round_even_mono_le:
  assumes "r \<le> of_int k"
  shows "round_even r \<le> k"
proof (cases "r = of_int k")
  case True
  then show ?thesis by (simp add: round_even_of_int)
next
  case False
  with assms have "r < of_int k" by simp
  then have "\<lfloor>r\<rfloor> < k" by linarith
  then have "\<lfloor>r\<rfloor> + 1 \<le> k" by simp
  then show ?thesis by (auto simp: round_even_def Let_def)
qed

lemma round_even_mono_ge:
  assumes "of_int k \<le> r"
  shows "k \<le> round_even r"
proof -
  have "k \<le> \<lfloor>r\<rfloor>" using assms by linarith
  then show ?thesis by (auto simp: round_even_def Let_def)
qed

lemma float_store_eval:
  assumes "2 powi e \<le> \<bar>x\<bar>" "\<bar>x\<bar> < 2 powi (e + 1)" "- 126 \<le> e"
  shows "float_store x = of_int (round_even (x / 2 powi (e - 23))) * 2 powi (e - 23)"
proof -
  have pos: "0 < \<bar>x\<bar>" using assms(1) zero_less_power_int[of "2::real" e] by linarith
  have "2 powr (of_int e) = (2::real) powi e" "2 powr (of_int e + 1) = (2::real) powi (e + 1)"
    using powr_real_of_int'[of "2::real" e] powr_real_of_int'[of "2::real" "e + 1"] by simp_all
  then have "\<lfloor>log 2 \<bar>x\<bar>\<rfloor> = e"
    using assms(1,2) pos floor_log_eq_powr_iff[of "\<bar>x\<bar>" 2 e] by simp
  with pos assms(3) show ?thesis by (simp add: float_store_def Let_def max_def)
qed

lemma float_store_error:
  "\<bar>float_store x - x\<bar> \<le> \<bar>x\<bar> / 2 ^ 24 + 1 / 2 ^ 150"
proof (cases "x = 0")
  case True
  then show ?thesis by (simp add: float_store_def)
next
  case False
  define e where "e = max \<lfloor>log 2 \<bar>x\<bar>\<rfloor> (- 126)"
  define ulp :: real where "ulp = 2 powi (e - 23)"
  have ulp: "0 < ulp" by (simp add: ulp_def)
  have fs: "float_store x = of_int (round_even (x / ulp)) * ulp"
    using False by (simp add: float_store_def Let_def e_def ulp_def)
  have "\<bar>float_store x - x\<bar> = \<bar>of_int (round_even (x / ulp)) - x / ulp\<bar> * ulp"
  proof -
    have "float_store x - x = (of_int (round_even (x / ulp)) - x / ulp) * ulp"
      using ulp by (simp add: fs field_simps)
    then show ?thesis using ulp by (simp add: abs_mult)
  qed
  also have "\<dots> \<le> 1 / 2 * ulp"
    using round_even_error[of "x / ulp"] ulp by (intro mult_right_mono) auto
  finally have err: "\<bar>float_store x - x\<bar> \<le> ulp / 2" by simp
  have half: "ulp / 2 = 2 powi e / 2 ^ 24"
    by (simp add: ulp_def power_int_diff)
  show ?thesis
  proof (cases "- 126 \<le> \<lfloor>log 2 \<bar>x\<bar>\<rfloor>")
    case True
    then have "e = \<lfloor>log 2 \<bar>x\<bar>\<rfloor>" by (simp add: e_def)
    then have "2 powr (of_int e) \<le> \<bar>x\<bar>"
      using False floor_log_eq_powr_iff[of "\<bar>x\<bar>" 2 e] by simp
    then have "2 powi e \<le> \<bar>x\<bar>" by (simp add: powr_real_of_int')
    then have "ulp / 2 \<le> \<bar>x\<bar> / 2 ^ 24" unfolding half by (simp add: divide_right_mono)
    with err show ?thesis by simp
  next
    case False
    then have "e = - 126" by (simp add: e_def)
    then have "ulp / 2 = 1 / 2 ^ 150"
      unfolding half by (simp add: power_int_minus field_simps)
    with err have "\<bar>float_store x - x\<bar> \<le> 1 / 2 ^ 150" by simp
    moreover have "0 \<le> \<bar>x\<bar> / 2 ^ 24" by simp
    ultimately show ?thesis by linarith
  qed
qed

lemma round_even_le_half:
  assumes "r < of_int k + 1 / 2"
  shows "round_even r \<le> k"
proof -
  have "\<lfloor>r\<rfloor> \<le> k" using assms by linarith
  then consider "\<lfloor>r\<rfloor> + 1 \<le> k" | "\<lfloor>r\<rfloor> = k" by linarith
  then show ?thesis
  proof cases
    case 1
    then show ?thesis by (auto simp: round_even_def Let_def)
  next
    case 2
    then have "r - of_int \<lfloor>r\<rfloor> < 1 / 2" using assms by simp
    with 2 show ?thesis by (simp add: round_even_def Let_def)
  qed
qed

lemma round_even_ge_half:
  assumes "of_int k - 1 / 2 < r"
  shows "k \<le> round_even r"
proof -
  have "k - 1 \<le> \<lfloor>r\<rfloor>" using assms by linarith
  then consider "k \<le> \<lfloor>r\<rfloor>" | "\<lfloor>r\<rfloor> = k - 1" by linarith
  then show ?thesis
  proof cases
    case 1
    then show ?thesis by (auto simp: round_even_def Let_def)
  next
    case 2
    then have "r - of_int \<lfloor>r\<rfloor> > 1 / 2" using assms by simp
    with 2 show ?thesis by (simp add: round_even_def Let_def)
  qed
qed

lemma round_even_abs_le:
  assumes "\<bar>r\<bar> < of_int k + 1 / 2"
  shows "\<bar>round_even r\<bar> \<le> k"
proof -
  have "r < of_int k + 1 / 2" "of_int (- k) - 1 / 2 < r" using assms by auto
  then have "round_even r \<le> k" "- k \<le> round_even r"
    using round_even_le_half round_even_ge_half by blast+
  then show ?thesis by simp
qed

lemma float_store_unit:
  assumes "\<bar>y\<bar> \<le> 1 + 5 / 10 ^ 11"
  shows "\<bar>float_store y\<bar> \<le> 1"
proof (cases "y = 0")
  case True
  then show ?thesis by (simp add: float_store_def)
next
  case nz: False
  define e0 where "e0 = \<lfloor>log 2 \<bar>y\<bar>\<rfloor>"
  define e where "e = max e0 (- 126)"
  define ulp :: real where "ulp = 2 powi (e - 23)"
  have ulp: "0 < ulp" by (simp add: ulp_def)
  have fs: "float_store y = of_int (round_even (y / ulp)) * ulp"
    using nz by (simp add: float_store_def Let_def e_def e0_def ulp_def)
  have "2 powr (of_int e0) \<le> \<bar>y\<bar> \<and> \<bar>y\<bar> < 2 powr (of_int e0 + 1)"
    using nz floor_log_eq_powr_iff[of "\<bar>y\<bar>" 2 e0] by (simp add: e0_def)
  then have b0: "2 powi e0 \<le> \<bar>y\<bar>" "\<bar>y\<bar> < 2 powi (e0 + 1)"
    using powr_real_of_int'[of "2::real" e0] powr_real_of_int'[of "2::real" "e0 + 1"] by simp_all
  have abs_fs: "\<bar>float_store y\<bar> = of_int \<bar>round_even (y / ulp)\<bar> * ulp"
    using ulp by (simp add: fs abs_mult)
  show ?thesis
  proof (cases "\<bar>y\<bar> < 1")
    case True
    have "e0 < 0"
    proof (rule ccontr)
      assume "\<not> e0 < 0"
      then have "(2::real) powi 0 \<le> 2 powi e0" by (intro power_int_increasing) auto
      with b0(1) True show False by simp
    qed
    then have e: "e + 1 \<le> 0" "e0 \<le> e" by (simp_all add: e_def)
    have "\<bar>y\<bar> < 2 powi (e + 1)"
    proof -
      have "(2::real) powi (e0 + 1) \<le> 2 powi (e + 1)" using e(2) by (intro power_int_increasing) auto
      with b0(2) show ?thesis by linarith
    qed
    moreover have "(2::real) powi (e + 1) = 2 ^ 24 * ulp"
      by (simp add: ulp_def power_int_diff power_int_add)
    ultimately have "\<bar>y / ulp\<bar> < 2 ^ 24" using ulp by (simp add: field_simps)
    moreover have "(of_int (2 ^ 24) :: real) = 2 ^ 24" by simp
    ultimately have "\<bar>y / ulp\<bar> < of_int (2 ^ 24) + 1 / 2" by linarith
    then have "\<bar>round_even (y / ulp)\<bar> \<le> 2 ^ 24" by (rule round_even_abs_le)
    then have "(of_int \<bar>round_even (y / ulp)\<bar> :: real) \<le> of_int (2 ^ 24)"
      by (simp only: of_int_le_iff)
    then have "(of_int \<bar>round_even (y / ulp)\<bar> :: real) \<le> 2 ^ 24" by simp
    then have "of_int \<bar>round_even (y / ulp)\<bar> * ulp \<le> 2 ^ 24 * ulp"
      using ulp by (intro mult_right_mono) simp_all
    also have "\<dots> = 2 powi (e + 1)" by (simp add: ulp_def power_int_diff power_int_add)
    also have "\<dots> \<le> 2 powi 0" using e(1) by (intro power_int_increasing) auto
    finally show ?thesis by (simp add: abs_fs)
  next
    case False
    then have ge: "1 \<le> \<bar>y\<bar>" by simp
    have "\<bar>y\<bar> < 2" using assms by simp
    then have "e0 = 0"
      using nz ge floor_log_eq_powr_iff[of "\<bar>y\<bar>" 2 0] by (simp add: e0_def)
    then have u: "ulp = 1 / 2 ^ 23" by (simp add: ulp_def e_def power_int_minus field_simps)
    have "\<bar>y / ulp\<bar> = \<bar>y\<bar> * 2 ^ 23" unfolding u by (simp add: abs_mult)
    also have "\<dots> \<le> (1 + 5 / 10 ^ 11) * 2 ^ 23" using assms by (intro mult_right_mono) auto
    also have "\<dots> < of_int (2 ^ 23) + 1 / 2" by simp
    finally have "\<bar>round_even (y / ulp)\<bar> \<le> 2 ^ 23" by (rule round_even_abs_le)
    then have "(of_int \<bar>round_even (y / ulp)\<bar> :: real) \<le> of_int (2 ^ 23)"
      by (simp only: of_int_le_iff)
    then have "(of_int \<bar>round_even (y / ulp)\<bar> :: real) \<le> 2 ^ 23" by simp
    then have "of_int \<bar>round_even (y / ulp)\<bar> * ulp \<le> 2 ^ 23 * ulp"
      using ulp by (intro mult_right_mono) simp_all
    also have "\<dots> = 1" unfolding u by simp
    finally show ?thesis by (simp add: abs_fs)
  qed
qed

lemma float_store_2: "float_store 2 = 2"
  using float_store_eval[of 1 2] by (simp add: round_even_def)

lemma float_store_abs_le:
  "\<bar>float_store y\<bar> \<le> \<bar>y\<bar> * (1 + 1 / 2 ^ 24) + 1 / 2 ^ 150"
proof -
  have "\<bar>float_store y\<bar> \<le> \<bar>y\<bar> + \<bar>float_store y - y\<bar>" by linarith
  also have "\<dots> \<le> \<bar>y\<bar> + (\<bar>y\<bar> / 2 ^ 24 + 1 / 2 ^ 150)"
    using float_store_error[of y] by linarith
  finally show ?thesis by (simp add: algebra_simps)
qed

section \<open>The output stage of a sample\<close>

lemma rng_ok_zero: "0 \<le> rmax \<Longrightarrow> rng_ok rmax zero_rng"
  by (simp add: rng_ok_def zero_rng_def)

lemma rng_ok_rand: "rng_ok rmax g \<Longrightarrow> rand g = (r, g') \<Longrightarrow> 0 \<le> r \<and> r \<le> rmax \<and> rng_ok rmax g'"
  by (auto simp: rng_ok_def rand_def)

lemma dither_term_bound:
  assumes "0 < rmax" "0 \<le> r" "r \<le> rmax"
  shows "\<bar>(real_of_int r / real_of_int rmax - 0.5) * (1 / 10 ^ 10)\<bar> \<le> 5 / 10 ^ 11"
proof -
  have "0 \<le> real_of_int r / real_of_int rmax" using assms by simp
  moreover have "real_of_int r / real_of_int rmax \<le> 1" using assms by simp
  ultimately have "\<bar>real_of_int r / real_of_int rmax - 0.5\<bar> \<le> 1 / 2" by linarith
  then show ?thesis by (simp add: abs_mult)
qed

lemma dither_bound:
  assumes "0 < rmax" "rng_ok rmax g" "dither rmax out st g = (y, st', g')"
  shows "\<bar>y - out\<bar> \<le> 5 / 10 ^ 11 \<and> rng_ok rmax g'"
proof (cases "fpflip st = 0")
  case True
  obtain r g1 where r: "rand g = (r, g1)" by (cases "rand g")
  from rng_ok_rand[OF assms(2) r] have rr: "0 \<le> r" "r \<le> rmax" "rng_ok rmax g1" by auto
  from assms(3) True r have "y = out + (real_of_int r / real_of_int rmax - 0.5) * (1 / 10 ^ 10)" "g' = g1"
    by (auto simp: dither_def Let_def)
  with dither_term_bound[OF assms(1) rr(1,2)] rr(3) show ?thesis by simp
next
  case False
  with assms show ?thesis by (auto simp: dither_def Let_def)
qed

lemma soft_limit_bound: "\<bar>soft_limit x\<bar> \<le> 1"
  by (auto simp: soft_limit_def Let_def)

lemma process_sample_dither:
  "\<exists>w st2. \<bar>w\<bar> \<le> 1 \<and> process_sample rmax K ch st x g = dither rmax (x * dry K + w * wet K) st2 g"
  unfolding process_sample_def Let_def
  by (auto simp: split_def intro!: exI soft_limit_bound)

lemma process_sample_bound:
  assumes "0 < rmax" "rng_ok rmax g" "0 \<le> wet K" "0 \<le> dry K"
    and "process_sample rmax K ch st x g = (y, st', g')"
  shows "\<bar>y\<bar> \<le> dry K * \<bar>x\<bar> + wet K + 5 / 10 ^ 11 \<and> rng_ok rmax g'"
proof -
  obtain w st2 where w: "\<bar>w\<bar> \<le> 1" and d: "dither rmax (x * dry K + w * wet K) st2 g = (y, st', g')"
    using process_sample_dither[of rmax K ch st x g] assms(5) by metis
  from dither_bound[OF assms(1,2) d] have a: "\<bar>y - (x * dry K + w * wet K)\<bar> \<le> 5 / 10 ^ 11" and g: "rng_ok rmax g'" by auto
  have "\<bar>x * dry K\<bar> = dry K * \<bar>x\<bar>" using assms(4) by (simp add: abs_mult)
  moreover have "\<bar>w * wet K\<bar> \<le> wet K" using w assms(3) by (simp add: abs_mult mult_left_le_one_le)
  ultimately have "\<bar>x * dry K + w * wet K\<bar> \<le> dry K * \<bar>x\<bar> + wet K"
    by linarith
  with a g show ?thesis by linarith
qed

lemma process_sample_dry:
  assumes "0 < rmax" "rng_ok rmax g" "wet K = 0" "dry K = 1"
    and "process_sample rmax K ch st x g = (y, st', g')"
  shows "\<bar>y - x\<bar> \<le> 5 / 10 ^ 11 \<and> rng_ok rmax g'"
proof -
  obtain w st2 where w: "\<bar>w\<bar> \<le> 1" and d: "dither rmax (x * dry K + w * wet K) st2 g = (y, st', g')"
    using process_sample_dither[of rmax K ch st x g] assms(5) by metis
  from dither_bound[OF assms(1,2) d] assms(3,4) show ?thesis by simp
qed

lemma process_sample_state:
  "\<exists>out x2 st2. apply_compression K ch (input_conditioning K x)
        (control_smoothing ch (input_conditioning K x) st) = (x2, st2) \<and>
     process_sample rmax K ch st x g =
       dither rmax out (second_stage_envelope ch \<bar>x2\<bar> st2) g"
proof -
  obtain x2 st2 where ac: "apply_compression K ch (input_conditioning K x)
        (control_smoothing ch (input_conditioning K x) st) = (x2, st2)"
    by (cases "apply_compression K ch (input_conditioning K x)
        (control_smoothing ch (input_conditioning K x) st)") auto
  have "\<exists>out. process_sample rmax K ch st x g =
       dither rmax out (second_stage_envelope ch \<bar>x2\<bar> st2) g"
    using ac by (simp add: process_sample_def Let_def) (rule exI, rule refl)
  with ac show ?thesis by blast
qed

lemma stage_params:
  "sample_rate (control_smoothing ch x st) = sample_rate st"
  "compress (control_smoothing ch x st) = compress st"
  "output (control_smoothing ch x st) = output st"
  "dry_wet (control_smoothing ch x st) = dry_wet st"
  "sample_rate (snd (apply_compression K ch x st)) = sample_rate st"
  "compress (snd (apply_compression K ch x st)) = compress st"
  "output (snd (apply_compression K ch x st)) = output st"
  "dry_wet (snd (apply_compression K ch x st)) = dry_wet st"
  "sample_rate (second_stage_envelope ch a st) = sample_rate st"
  "compress (second_stage_envelope ch a st) = compress st"
  "output (second_stage_envelope ch a st) = output st"
  "dry_wet (second_stage_envelope ch a st) = dry_wet st"
  "sample_rate (fst (snd (dither rmax out st g))) = sample_rate st"
  "compress (fst (snd (dither rmax out st g))) = compress st"
  "output (fst (snd (dither rmax out st g))) = output st"
  "dry_wet (fst (snd (dither rmax out st g))) = dry_wet st"
  by (simp_all add: control_smoothing_def apply_compression_def second_stage_envelope_def
      dither_def Let_def split_def)

lemma process_sample_params:
  assumes "process_sample rmax K ch st x g = (y, st', g')"
  shows "sample_rate st' = sample_rate st \<and> compress st' = compress st \<and>
         output st' = output st \<and> dry_wet st' = dry_wet st"
proof -
  obtain out x2 st2 where
    ac: "apply_compression K ch (input_conditioning K x)
           (control_smoothing ch (input_conditioning K x) st) = (x2, st2)"
    and d: "dither rmax out (second_stage_envelope ch \<bar>x2\<bar> st2) g = (y, st', g')"
    using process_sample_state[of K ch x st rmax g] assms by auto
  have "st2 = snd (apply_compression K ch (input_conditioning K x)
           (control_smoothing ch (input_conditioning K x) st))"
    using ac by simp
  moreover have "st' = fst (snd (dither rmax out (second_stage_envelope ch \<bar>x2\<bar> st2) g))"
    using d by simp
  ultimately show ?thesis by (simp add: stage_params)
qed

lemma process_locals_cong:
  "sample_rate st' = sample_rate st \<and> compress st' = compress st \<and>
         output st' = output st \<and> dry_wet st' = dry_wet st \<Longrightarrow> process_locals st' = process_locals st"
  by (simp add: process_locals_def)

section \<open>The sample loop\<close>

text \<open>The loop returns when the index reaches \<open>num_samples\<close>, takes one round below it, and
  leaves the model when the index is outside a buffer.\<close>

lemma process_loop_done: "\<not> int i < n \<Longrightarrow> process_loop rmax K i n s l r g = Some (s, l, r, g)"
  by (simp add: process_loop.simps)

lemma process_loop_step:
  "int i < n \<Longrightarrow> i < length L \<Longrightarrow> i < length R \<Longrightarrow>
   process_sample rmax K 0 st (L ! i) g = (l, st1, g1) \<Longrightarrow>
   process_sample rmax K 1 st1 (R ! i) g1 = (r, st2, g2) \<Longrightarrow>
   process_loop rmax K i n st L R g = process_loop rmax K (Suc i) n st2 (L[i := float_store l]) (R[i := float_store r]) g2"
  by (subst process_loop.simps) simp

lemma process_loop_oob:
  "int i < n \<Longrightarrow> \<not> (i < length L \<and> i < length R) \<Longrightarrow> process_loop rmax K i n st L R g = None"
  by (subst process_loop.simps) (simp only: if_P if_not_P if_False)

lemma process_loop_unfold:
  "int i < n \<Longrightarrow> i < length L \<Longrightarrow> i < length R \<Longrightarrow>
   process_loop rmax K i n st L R g =
     (let (l, st1, g1) = process_sample rmax K 0 st (L ! i) g;
          (r, st2, g2) = process_sample rmax K 1 st1 (R ! i) g1
      in process_loop rmax K (Suc i) n st2 (L[i := float_store l]) (R[i := float_store r]) g2)"
  by (subst process_loop.simps) (simp add: Let_def split_def)

text \<open>A property \<open>P\<close> of an input sample and the sample stored for it holds of every
  sample the loop writes, and
  an invariant \<open>I\<close> of the state, \<open>G\<close> of the generator, is kept; \<open>A\<close> is what the
  input samples are assumed to satisfy.\<close>

lemma process_loop_pointwise:
  assumes step: "\<And>ch st x g y st' g'. ch < 2 \<Longrightarrow> I st \<Longrightarrow> G g \<Longrightarrow> A x \<Longrightarrow>
      process_sample rmax K ch st x g = (y, st', g') \<Longrightarrow>
      P x (float_store y) \<and> I st' \<and> G g'"
  shows "I st \<Longrightarrow> G g \<Longrightarrow> n \<le> int (length L) \<Longrightarrow> n \<le> int (length R) \<Longrightarrow>
    (\<forall>j. i \<le> j \<and> int j < n \<longrightarrow> A (L ! j) \<and> A (R ! j)) \<Longrightarrow>
    \<exists>st' L' R' g'. process_loop rmax K i n st L R g = Some (st', L', R', g') \<and> I st' \<and> G g' \<and>
      length L' = length L \<and> length R' = length R \<and>
      (\<forall>j. j < i \<or> n \<le> int j \<longrightarrow> L' ! j = L ! j \<and> R' ! j = R ! j) \<and>
      (\<forall>j. i \<le> j \<and> int j < n \<longrightarrow> P (L ! j) (L' ! j) \<and> P (R ! j) (R' ! j))"
proof (induction k \<equiv> "nat (n - int i)" arbitrary: i st L R g)
  case 0
  then have "\<not> int i < n" by simp
  then have "\<And>j. i \<le> j \<Longrightarrow> \<not> int j < n" by linarith
  with 0 \<open>\<not> int i < n\<close> show ?case by (auto simp: process_loop_done)
next
  case (Suc k)
  then have lt: "int i < n" and iL: "i < length L" and iR: "i < length R" by auto
  obtain l st1 g1 where p0: "process_sample rmax K 0 st (L ! i) g = (l, st1, g1)"
    by (cases "process_sample rmax K 0 st (L ! i) g") auto
  obtain r st2 g2 where p1: "process_sample rmax K 1 st1 (R ! i) g1 = (r, st2, g2)"
    by (cases "process_sample rmax K 1 st1 (R ! i) g1") auto
  from Suc.prems(5) lt have Ai: "A (L ! i)" "A (R ! i)" by auto
  from step[OF _ Suc.prems(1,2) Ai(1) p0] have s0: "P (L ! i) (float_store l)" "I st1" "G g1" by auto
  from step[OF _ s0(2,3) Ai(2) p1] have s1: "P (R ! i) (float_store r)" "I st2" "G g2" by auto
  have k: "k = nat (n - int (Suc i))" using Suc.hyps(2) by simp
  have A': "\<forall>j. Suc i \<le> j \<and> int j < n \<longrightarrow> A (L[i := float_store l] ! j) \<and> A (R[i := float_store r] ! j)"
    using Suc.prems(5) by auto
  from Suc.hyps(1)[OF k s1(2,3) _ _ A'] Suc.prems(3,4)
  obtain st' L' R' g' where res: "process_loop rmax K (Suc i) n st2 (L[i := float_store l]) (R[i := float_store r]) g2 = Some (st', L', R', g')"
    "I st'" "G g'" "length L' = length L" "length R' = length R"
    and same: "\<forall>j. j < Suc i \<or> n \<le> int j \<longrightarrow> L' ! j = L[i := float_store l] ! j \<and> R' ! j = R[i := float_store r] ! j"
    and new: "\<forall>j. Suc i \<le> j \<and> int j < n \<longrightarrow> P (L[i := float_store l] ! j) (L' ! j) \<and> P (R[i := float_store r] ! j) (R' ! j)"
    by auto
  have eq: "process_loop rmax K i n st L R g = Some (st', L', R', g')"
    using process_loop_step[OF lt iL iR p0 p1] res(1) by simp
  have at_i: "L' ! i = float_store l" "R' ! i = float_store r" using same iL iR by auto
  have "\<forall>j. j < i \<or> n \<le> int j \<longrightarrow> L' ! j = L ! j \<and> R' ! j = R ! j"
    using same lt by auto
  moreover have "\<forall>j. i \<le> j \<and> int j < n \<longrightarrow> P (L ! j) (L' ! j) \<and> P (R ! j) (R' ! j)"
  proof (intro allI impI)
    fix j assume j: "i \<le> j \<and> int j < n"
    show "P (L ! j) (L' ! j) \<and> P (R ! j) (R' ! j)"
    proof (cases "j = i")
      case True
      with at_i s0(1) s1(1) show ?thesis by simp
    next
      case False
      with j new show ?thesis by auto
    qed
  qed
  ultimately show ?case using eq res(2-5) by blast
qed

text \<open>The loop up to \<open>n\<close> is the loop up to \<open>m\<close> followed by the loop from \<open>m\<close>; and a loop
  that starts at index \<open>k\<close> is the loop from 0 on the buffers without their first \<open>k\<close>
  samples, which is a call with both pointers advanced by \<open>k\<close>.\<close>

lemma process_loop_split:
  "i \<le> m \<Longrightarrow> int m \<le> n \<Longrightarrow>
   process_loop rmax K i n st L R g =
     (case process_loop rmax K i (int m) st L R g of
        None \<Rightarrow> None
      | Some (st', L', R', g') \<Rightarrow> process_loop rmax K m n st' L' R' g')"
proof (induction k \<equiv> "m - i" arbitrary: i st L R g)
  case 0
  then have "i = m" by simp
  then show ?case by (simp add: process_loop_done)
next
  case (Suc k)
  then have lt: "int i < int m" "int i < n" by auto
  show ?case
  proof (cases "i < length L \<and> i < length R")
    case False
    then show ?thesis using lt by (simp add: process_loop_oob)
  next
    case True
    obtain l st1 g1 where p0: "process_sample rmax K 0 st (L ! i) g = (l, st1, g1)"
      by (cases "process_sample rmax K 0 st (L ! i) g") auto
    obtain r st2 g2 where p1: "process_sample rmax K 1 st1 (R ! i) g1 = (r, st2, g2)"
      by (cases "process_sample rmax K 1 st1 (R ! i) g1") auto
    have k: "k = m - Suc i" "Suc i \<le> m" using Suc.hyps(2) by auto
    from True have iL: "i < length L" and iR: "i < length R" by auto
    show ?thesis
      using process_loop_step[OF lt(2) iL iR p0 p1] process_loop_step[OF lt(1) iL iR p0 p1]
        Suc.hyps(1)[OF k(1) k(2) Suc.prems(2)]
      by simp
  qed
qed

lemma process_loop_shift:
  "length pl = k \<Longrightarrow> length pr = k \<Longrightarrow>
   process_loop rmax K (k + i) (int k + n) st (pl @ L) (pr @ R) g =
     map_option (\<lambda>(st', L', R', g'). (st', pl @ L', pr @ R', g'))
       (process_loop rmax K i n st L R g)"
proof (induction d \<equiv> "nat (n - int i)" arbitrary: i st L R g)
  case 0
  then have "\<not> int i < n" "\<not> int (k + i) < int k + n" by auto
  then show ?case by (simp add: process_loop_done)
next
  case (Suc d)
  then have lt: "int i < n" "int (k + i) < int k + n" by auto
  show ?case
  proof (cases "i < length L \<and> i < length R")
    case False
    then have "\<not> (k + i < length (pl @ L) \<and> k + i < length (pr @ R))"
      using Suc.prems by auto
    with False lt show ?thesis by (simp add: process_loop_oob)
  next
    case True
    then have iL: "i < length L" and iR: "i < length R" by auto
    have kL: "k + i < length (pl @ L)" and kR: "k + i < length (pr @ R)"
      using iL iR Suc.prems by auto
    have nL: "(pl @ L) ! (k + i) = L ! i" and nR: "(pr @ R) ! (k + i) = R ! i"
      using Suc.prems by (auto simp: nth_append)
    obtain l st1 g1 where p0: "process_sample rmax K 0 st (L ! i) g = (l, st1, g1)"
      by (cases "process_sample rmax K 0 st (L ! i) g") auto
    obtain r st2 g2 where p1: "process_sample rmax K 1 st1 (R ! i) g1 = (r, st2, g2)"
      by (cases "process_sample rmax K 1 st1 (R ! i) g1") auto
    have uL: "(pl @ L)[k + i := float_store l] = pl @ L[i := float_store l]" and uR: "(pr @ R)[k + i := float_store r] = pr @ R[i := float_store r]"
      using Suc.prems by (auto simp: list_update_append)
    have d: "d = nat (n - int (Suc i))" using Suc.hyps(2) by simp
    have "process_loop rmax K (k + i) (int k + n) st (pl @ L) (pr @ R) g =
          process_loop rmax K (Suc (k + i)) (int k + n) st2 ((pl @ L)[k + i := float_store l]) ((pr @ R)[k + i := float_store r]) g2"
      using process_loop_step[OF lt(2) kL kR] p0 p1 nL nR by simp
    also have "\<dots> = process_loop rmax K (k + Suc i) (int k + n) st2 (pl @ L[i := float_store l]) (pr @ R[i := float_store r]) g2"
      by (simp add: uL uR)
    also have "\<dots> = map_option (\<lambda>(st', L', R', g'). (st', pl @ L', pr @ R', g'))
       (process_loop rmax K (Suc i) n st2 (L[i := float_store l]) (R[i := float_store r]) g2)"
      using Suc.hyps(1)[OF d Suc.prems] .
    also have "process_loop rmax K (Suc i) n st2 (L[i := float_store l]) (R[i := float_store r]) g2 = process_loop rmax K i n st L R g"
      using process_loop_step[OF lt(1) iL iR p0 p1] by simp
    finally show ?thesis .
  qed
qed

lemma process_loop_total:
  assumes "n \<le> int (length L)" "n \<le> int (length R)"
  shows "\<exists>st' L' R' g'. process_loop rmax K i n st L R g = Some (st', L', R', g') \<and>
     process_locals st' = process_locals st \<and> length L' = length L \<and> length R' = length R"
proof -
  have "\<exists>st' L' R' g'. process_loop rmax K i n st L R g = Some (st', L', R', g') \<and>
      (sample_rate st' = sample_rate st \<and> compress st' = compress st \<and>
         output st' = output st \<and> dry_wet st' = dry_wet st) \<and> True \<and>
      length L' = length L \<and> length R' = length R \<and>
      (\<forall>j. j < i \<or> n \<le> int j \<longrightarrow> L' ! j = L ! j \<and> R' ! j = R ! j) \<and>
      (\<forall>j. i \<le> j \<and> int j < n \<longrightarrow> True \<and> True)"
    by (rule process_loop_pointwise[where I = "\<lambda>t. sample_rate t = sample_rate st \<and> compress t = compress st \<and>
         output t = output st \<and> dry_wet t = dry_wet st" and G = "\<lambda>_. True" and A = "\<lambda>_. True" and P = "\<lambda>_ _. True"])
      (use assms process_sample_params in auto)
  then show ?thesis using process_locals_cong by blast
qed

lemma process_stereo_Some:
  "buttercomp2_process_stereo rmax (Some s) (Some L) (Some R) n g =
     map_option (\<lambda>(s', left', right', g'). (Some s', Some left', Some right', g'))
            (process_loop rmax (process_locals s) 0 n s L R g)"
  by (simp add: buttercomp2_process_stereo_def)

lemma process_stereo_total:
  assumes "n \<le> int (length L)" "n \<le> int (length R)"
  shows "\<exists>s' L' R' g'. buttercomp2_process_stereo rmax (Some s) (Some L) (Some R) n g
       = Some (Some s', Some L', Some R', g')"
  using process_loop_total[OF assms, of rmax "process_locals s" 0 s g]
  by (auto simp: process_stereo_Some)

text \<open>The equations that evaluate a call on concrete buffers.\<close>

lemmas eval_defs = buttercomp2_process_stereo_def process_loop_unfold process_loop_done
  process_sample_def process_locals_def input_conditioning_def control_smoothing_def
  apply_compression_def second_stage_envelope_def dynamic_compression_def soft_limit_def
  dither_def rand_def Let_def buttercomp2_create_def calloc_state_def zeroed_def float_store_2
  buttercomp2_set_dry_wet_def buttercomp2_set_compress_def buttercomp2_set_output_def clamp01_def std_min_def std_max_def
  result_left_def result_right_def result_state_def zero_rng_def full_rng_def

section \<open>The second stage\<close>

lemma envelope_test_false:
  "\<not> (\<bar>x\<bar> > avg_A (second_stage_envelope ch \<bar>x\<bar> st) ch * 1.1)"
proof (cases "\<bar>x\<bar> > avg_A st ch")
  case True
  then show ?thesis by (simp add: second_stage_envelope_def)
next
  case False
  then have "avg_A (second_stage_envelope ch \<bar>x\<bar> st) ch = avg_A st ch * 0.999 + \<bar>x\<bar> * 0.001"
    by (simp add: second_stage_envelope_def)
  with False show ?thesis by simp
qed

lemma second_stage_envelope_follows:
  "second_stage_envelope ch a st =
     st\<lparr> avg_A := (avg_A st)(ch := spec_envelope_follower (avg_A st ch) a) \<rparr>"
  by (simp add: second_stage_envelope_def spec_envelope_follower_def)

lemma dynamic_compression_divides:
  "dynamic_compression K ch \<bar>x\<bar> x st =
     spec_transient_division (compress_amount K) (avg_A st ch) x"
  by (simp add: dynamic_compression_def spec_transient_division_def Let_def)






section \<open>Bounds on the running state\<close>

lemma convex_step:
  fixes a b c t r :: real
  assumes "0 \<le> r" "r \<le> 1" "a \<le> c" "c \<le> b" "a \<le> t" "t \<le> b"
  shows "a \<le> c + (t - c) * r \<and> c + (t - c) * r \<le> b"
proof -
  have e: "c + (t - c) * r = (1 - r) * c + r * t" by (simp add: algebra_simps)
  have "(1 - r) * a \<le> (1 - r) * c" "r * a \<le> r * t" "(1 - r) * c \<le> (1 - r) * b" "r * t \<le> r * b"
    using assms by (auto intro: mult_left_mono)
  then have "(1 - r) * a + r * a \<le> (1 - r) * c + r * t" "(1 - r) * c + r * t \<le> (1 - r) * b + r * b"
    by linarith+
  then show ?thesis unfolding e by (simp add: algebra_simps)
qed

lemma conditioned_bound:
  assumes "locals_ok K" "\<bar>x\<bar> \<le> M"
  shows "\<bar>input_conditioning K x\<bar> \<le> 2.4 * M"
proof -
  have c: "0 \<le> 1 + compress_amount K * 0.1" "1 + compress_amount K * 0.1 \<le> 2.4"
    using assms(1) by (auto simp: locals_ok_def)
  have "\<bar>input_conditioning K x\<bar> = \<bar>x\<bar> * (1 + compress_amount K * 0.1)"
    using c(1) by (simp add: input_conditioning_def abs_mult)
  also have "\<dots> \<le> M * 2.4"
    using assms(2) c by (intro mult_mono) auto
  finally show ?thesis by simp
qed

lemma control_smoothing_ok:
  assumes "channel_ok M st c" "\<bar>x1\<bar> \<le> 2.4 * M"
  shows "channel_ok M (control_smoothing ch x1 st) c"
  using assms by (cases "c = ch") (auto simp: channel_ok_def control_smoothing_def Let_def)

lemma control_target_bound:
  fixes tp ca M :: real
  assumes "0 \<le> tp" "tp \<le> 2.4 * M" "0 \<le> ca" "ca \<le> 14"
  shows "0 \<le> tp * ca * 0.1 \<and> tp * ca * 0.1 \<le> 3.36 * M"
proof -
  define q where "q = tp * ca"
  have "q \<le> (2.4 * M) * 14" unfolding q_def using assms by (intro mult_mono) auto
  moreover have "0 \<le> q" unfolding q_def using assms by simp
  moreover have "tp * ca * 0.1 = q * 0.1" by (simp add: q_def)
  ultimately show ?thesis by simp
qed

lemma control_target_bound_neg:
  fixes tn ca M :: real
  assumes "- (2.4 * M) \<le> tn" "tn \<le> 0" "0 \<le> ca" "ca \<le> 14"
  shows "- (3.36 * M) \<le> tn * ca * 0.1 \<and> tn * ca * 0.1 \<le> 0"
proof -
  define q where "q = (- tn) * ca"
  have "0 \<le> q * 0.1 \<and> q * 0.1 \<le> 3.36 * M"
    unfolding q_def using control_target_bound[of "- tn" M ca] assms by simp
  moreover have "tn * ca * 0.1 = - (q * 0.1)" by (simp add: q_def)
  ultimately show ?thesis by simp
qed

lemma divide_ge_one_abs:
  fixes x d :: real
  assumes "1 \<le> d"
  shows "\<bar>x / d\<bar> \<le> \<bar>x\<bar>"
proof -
  have "\<bar>x / d\<bar> = \<bar>x\<bar> / d" using assms by simp
  also have "\<dots> \<le> \<bar>x\<bar> / 1" using assms by (intro divide_left_mono) auto
  finally show ?thesis by simp
qed

lemma apply_compression_ok:
  assumes "locals_ok K" "channel_ok M st c" "apply_compression K ch x1 st = (x2, st2)"
  shows "channel_ok M st2 c"
proof (cases "c = ch")
  case False
  with assms(2,3) show ?thesis
    by (auto simp: channel_ok_def apply_compression_def Let_def split: if_splits)
next
  case True
  from assms(1) have K: "0 \<le> compress_amount K" "compress_amount K \<le> 14"
      "0 \<le> release_speed K" "release_speed K \<le> 1" by (auto simp: locals_ok_def)
  from assms(2) True have tp: "0 \<le> target_pos st ch" "target_pos st ch \<le> 2.4 * M"
    and tn: "- (2.4 * M) \<le> target_neg st ch" "target_neg st ch \<le> 0"
    and cp: "0 \<le> control_A_pos st ch" "control_A_pos st ch \<le> 3.36 * M"
    and cn: "- (3.36 * M) \<le> control_A_neg st ch" "control_A_neg st ch \<le> 0"
    by (auto simp: channel_ok_def)
  note A = control_target_bound[OF tp K(1,2)]
  note B = control_target_bound_neg[OF tn K(1,2)]
  from convex_step[OF K(3,4) cp conjunct1[OF A] conjunct2[OF A]]
  have P: "0 \<le> control_A_pos st ch + (target_pos st ch * compress_amount K * 0.1 - control_A_pos st ch) * release_speed K"
    "control_A_pos st ch + (target_pos st ch * compress_amount K * 0.1 - control_A_pos st ch) * release_speed K \<le> 3.36 * M"
    by auto
  from convex_step[OF K(3,4) cn conjunct1[OF B] conjunct2[OF B]]
  have N: "- (3.36 * M) \<le> control_A_neg st ch + (target_neg st ch * compress_amount K * 0.1 - control_A_neg st ch) * release_speed K"
    "control_A_neg st ch + (target_neg st ch * compress_amount K * 0.1 - control_A_neg st ch) * release_speed K \<le> 0"
    by auto
  show ?thesis
  proof (cases "x1 > 0")
    case pos: True
    with assms(3) have "st2 = st\<lparr> control_A_pos := (control_A_pos st)
                          (ch := control_A_pos st ch
                                 + (target_pos st ch * compress_amount K * 0.1 - control_A_pos st ch) * release_speed K) \<rparr>"
      by (simp add: apply_compression_def Let_def)
    with assms(2) True P show ?thesis by (simp add: channel_ok_def)
  next
    case neg: False
    with assms(3) have "st2 = st\<lparr> control_A_neg := (control_A_neg st)
                          (ch := control_A_neg st ch
                                 + (target_neg st ch * compress_amount K * 0.1 - control_A_neg st ch) * release_speed K) \<rparr>"
      by (simp add: apply_compression_def Let_def)
    with assms(2) True N show ?thesis by (simp add: channel_ok_def)
  qed
qed

lemma apply_compression_divisor:
  assumes "apply_compression K ch x1 st = (x2, st2)"
  shows "x2 = x1 / (if x1 > 0 then 1 + control_A_pos st2 ch else 1 + \<bar>control_A_neg st2 ch\<bar>)"
  using assms by (auto simp: apply_compression_def Let_def split: if_splits)

lemma apply_compression_sample:
  assumes "locals_ok K" "channel_ok M st ch" "apply_compression K ch x1 st = (x2, st2)"
  shows "\<bar>x2\<bar> \<le> \<bar>x1\<bar>"
proof -
  from apply_compression_ok[OF assms] have "0 \<le> control_A_pos st2 ch" by (simp add: channel_ok_def)
  then have "1 \<le> (if x1 > 0 then 1 + control_A_pos st2 ch else 1 + \<bar>control_A_neg st2 ch\<bar>)" by simp
  from divide_ge_one_abs[OF this] apply_compression_divisor[OF assms(3)] show ?thesis by simp
qed

text \<open>The division of the gain stage: its divisor is read in the state the stage
  returns, and is at least 1 when the channel was within its bounds.\<close>

lemma step_divisor_ge_one:
  assumes "locals_ok K" "channel_ok M st ch" "apply_compression K ch x1 st = (x2, st2)"
  shows "\<exists>d. d = (if x1 > 0 then 1 + control_A_pos st2 ch else 1 + \<bar>control_A_neg st2 ch\<bar>) \<and>
     1 \<le> d \<and> x2 = x1 / d"
proof -
  from apply_compression_ok[OF assms] have "0 \<le> control_A_pos st2 ch"
    by (simp add: channel_ok_def)
  then have "1 \<le> (if x1 > 0 then 1 + control_A_pos st2 ch else 1 + \<bar>control_A_neg st2 ch\<bar>)"
    by simp
  with apply_compression_divisor[OF assms(3)] show ?thesis by blast
qed

lemma second_stage_envelope_ok:
  assumes "channel_ok M st c" "0 \<le> a" "a \<le> 2.4 * M"
  shows "channel_ok M (second_stage_envelope ch a st) c"
  using assms by (cases "c = ch") (auto simp: channel_ok_def second_stage_envelope_def)

lemma dither_ok:
  assumes "channel_ok M st c" "dither rmax out st g = (y, st', g')"
  shows "channel_ok M st' c"
  using assms by (auto simp: channel_ok_def dither_def Let_def split: if_splits prod.splits)

lemma process_sample_channel_ok:
  assumes "locals_ok K" "\<bar>x\<bar> \<le> M" "channel_ok M st ch" "channel_ok M st c"
    and "process_sample rmax K ch st x g = (y, st', g')"
  shows "channel_ok M st' c"
proof -
  define x1 where "x1 = input_conditioning K x"
  define st1 where "st1 = control_smoothing ch x1 st"
  obtain x2 st2 where ac: "apply_compression K ch x1 st1 = (x2, st2)"
    by (cases "apply_compression K ch x1 st1") auto
  define st3 where "st3 = second_stage_envelope ch \<bar>x2\<bar> st2"
  have b1: "\<bar>x1\<bar> \<le> 2.4 * M" unfolding x1_def by (rule conditioned_bound[OF assms(1,2)])
  have o1: "channel_ok M st1 ch" "channel_ok M st1 c"
    unfolding st1_def using control_smoothing_ok[OF _ b1] assms(3,4) by auto
  have o2: "channel_ok M st2 c" using apply_compression_ok[OF assms(1) o1(2) ac] .
  have b2: "\<bar>x2\<bar> \<le> 2.4 * M" using apply_compression_sample[OF assms(1) o1(1) ac] b1 by linarith
  have o3: "channel_ok M st3 c" unfolding st3_def by (rule second_stage_envelope_ok[OF o2 _ b2]) simp
  have "\<exists>out. process_sample rmax K ch st x g = dither rmax out st3 g"
    unfolding st3_def using ac unfolding st1_def x1_def
    by (simp add: process_sample_def Let_def) (rule exI, rule refl)
  then obtain out where "dither rmax out st3 g = (y, st', g')" using assms(5) by auto
  from dither_ok[OF o3 this] show ?thesis .
qed

lemma process_sample_state_ok:
  assumes "locals_ok K" "\<bar>x\<bar> \<le> M" "ch < 2" "state_ok sr M st"
    and "process_sample rmax K ch st x g = (y, st', g')"
  shows "state_ok sr M st'"
proof -
  from assms(3) have ch: "ch = 0 \<or> ch = 1" by auto
  from assms(4) have c: "channel_ok M st 0" "channel_ok M st 1" "channel_ok M st ch"
    using ch by (auto simp: state_ok_def)
  from process_sample_channel_ok[OF assms(1,2) c(3) c(1) assms(5)]
    process_sample_channel_ok[OF assms(1,2) c(3) c(2) assms(5)]
    process_sample_params[OF assms(5)] assms(4)
  show ?thesis by (simp add: state_ok_def params_ok_def)
qed

lemma process_locals_ok:
  assumes "params_ok s" "1 / 1000 \<le> sample_rate s"
  shows "locals_ok (process_locals s)"
proof -
  have "0 < sample_rate s" using assms(2) by simp
  then have "1 / (sample_rate s * 1000) \<le> 1" using assms(2) by (simp add: field_simps)
  then show ?thesis using assms \<open>0 < sample_rate s\<close>
    by (simp add: locals_ok_def process_locals_def Let_def params_ok_def)
qed

lemma process_stereo_state_ok:
  assumes "1 / 1000 \<le> sr" "state_ok sr M s" "n \<le> int (length L)" "n \<le> int (length R)"
    and "\<forall>x \<in> set L \<union> set R. \<bar>x\<bar> \<le> M"
    and "buttercomp2_process_stereo rmax (Some s) (Some L) (Some R) n g = Some (Some s', L', R', g')"
  shows "state_ok sr M s'"
proof -
  let ?K = "process_locals s"
  have K: "locals_ok ?K" using process_locals_ok assms(1,2) by (simp add: state_ok_def)
  have step: "\<And>ch st x g y st' g'. ch < 2 \<Longrightarrow> state_ok sr M st \<Longrightarrow> True \<Longrightarrow> \<bar>x\<bar> \<le> M \<Longrightarrow>
      process_sample rmax ?K ch st x g = (y, st', g') \<Longrightarrow> True \<and> state_ok sr M st' \<and> True"
    using process_sample_state_ok[OF K] by blast
  have "\<exists>st' L' R' g'. process_loop rmax ?K 0 n s L R g = Some (st', L', R', g') \<and> state_ok sr M st' \<and> True \<and>
      length L' = length L \<and> length R' = length R \<and>
      (\<forall>j. j < 0 \<or> n \<le> int j \<longrightarrow> L' ! j = L ! j \<and> R' ! j = R ! j) \<and>
      (\<forall>j. 0 \<le> j \<and> int j < n \<longrightarrow> True \<and> True)"
    by (rule process_loop_pointwise[where I = "state_ok sr M" and G = "\<lambda>_. True" and A = "\<lambda>x. \<bar>x\<bar> \<le> M" and P = "\<lambda>_ _. True", OF step])
      (use assms in auto)
  then show ?thesis using assms(6) by (auto simp: process_stereo_Some)
qed

lemma create_state_ok:
  assumes "0 \<le> M" "buttercomp2_create True sr = Some s"
  shows "state_ok sr M s"
proof -
  have s: "s = zeroed\<lparr> sample_rate := sr, compress := 0, output := 0.5, dry_wet := 1, fpflip := 1 \<rparr>"
    using assms(2) by (simp add: create_Some)
  have "channel_ok M s c" for c
    using assms(1) unfolding s by (simp add: channel_ok_def zeroed_def)
  moreover have "params_ok s" "sample_rate s = sr"
    unfolding s by (simp_all add: params_ok_def)
  ultimately show ?thesis by (simp add: state_ok_def)
qed

lemma set_param_state_ok:
  assumes "state_ok sr M s"
  shows "state_ok sr M (s\<lparr> compress := stored (clamp01 v) \<rparr>)"
    and "state_ok sr M (s\<lparr> output := stored (clamp01 v) \<rparr>)"
    and "state_ok sr M (s\<lparr> dry_wet := stored (clamp01 v) \<rparr>)"
  using assms stored_clamp01[of v]
  by (simp_all add: state_ok_def params_ok_def channel_ok_def)

lemma reset_state_ok:
  assumes "0 \<le> M" "state_ok sr M s" "buttercomp2_reset (Some s) = Some s'"
  shows "state_ok sr M s'"
proof -
  have s': "s' = fold reset_channel [0..<2] s"
    using assms(3) by (simp add: buttercomp2_reset_def)
  have "channel_ok M s' 0" "channel_ok M s' 1"
    using assms(1) unfolding s'
    by (simp_all add: channel_ok_def reset_channel_def numeral_2_eq_2)
  moreover have "params_ok s'" "sample_rate s' = sr"
    using assms(2) unfolding s'
    by (simp_all add: state_ok_def params_ok_def reset_channel_def numeral_2_eq_2)
  ultimately show ?thesis by (simp add: state_ok_def)
qed

lemma reachable_state_ok:
  assumes "1 / 1000 \<le> sr" "0 \<le> M" "reachable sr M s"
  shows "state_ok sr M s"
  using assms(3)
proof (induction rule: reachable.induct)
  case (create s)
  then show ?case using create_state_ok[OF assms(2)] by simp
next
  case (set_compress s v s')
  then show ?case using set_param_state_ok(1)[of sr M s v]
    by (simp add: buttercomp2_set_compress_def)
next
  case (set_output s v s')
  then show ?case using set_param_state_ok(2)[of sr M s v]
    by (simp add: buttercomp2_set_output_def)
next
  case (set_dry_wet s v s')
  then show ?case using set_param_state_ok(3)[of sr M s v]
    by (simp add: buttercomp2_set_dry_wet_def)
next
  case (reset s s')
  then show ?case using reset_state_ok[OF assms(2)] by simp
next
  case (process s n L R rmax g s' L' R' g')
  then show ?case using process_stereo_state_ok[OF assms(1)] by blast
qed

section \<open>The claims\<close>

subsection \<open>C1: range of the output samples\<close>

text \<open>
  C1, as amended. For an instance created with a sample rate of at least \<open>0.001\<close>, in a
  state reached from creation on samples of absolute value at most \<open>M\<close>, on buffers of
  such samples holding the \<open>n\<close> samples asked for, and with a generator within its
  range, the call returns, and every sample it writes is the single-precision rounding
  of a value \<open>y\<close> with \<open>|y| \<le> (1 - dry_wet) * |input| + dry_wet + 5e-11\<close>, whatever \<open>compress\<close>
  and \<open>output\<close> are; so its absolute value is at most that bound times \<open>1 + 2^-24\<close>, plus
  \<open>2^-150\<close>. When \<open>dry_wet = 1\<close>, or when the input sample itself lies in \<open>[-1,1]\<close>, the
  written sample lies in \<open>[-1,1]\<close>. The hard clip bounds the wet signal only, and the dry
  signal is mixed in after it.
\<close>

theorem process_output_bound:
  assumes "0 < rmax" "rng_ok rmax g" "1 / 1000 \<le> sr" "0 \<le> M" "reachable sr M s"
    and "\<forall>x \<in> set L \<union> set R. \<bar>x\<bar> \<le> M" "n \<le> int (length L)" "n \<le> int (length R)"
  shows "\<exists>s' L' R' g'.
     buttercomp2_process_stereo rmax (Some s) (Some L) (Some R) n g
       = Some (Some s', Some L', Some R', g') \<and>
     length L' = length L \<and> length R' = length R \<and>
     (\<forall>j. int j < n \<longrightarrow>
        (\<exists>y. L' ! j = float_store y \<and>
              \<bar>y\<bar> \<le> (1 - dry_wet s) * \<bar>L ! j\<bar> + dry_wet s + 5 / 10 ^ 11) \<and>
        (\<exists>y. R' ! j = float_store y \<and>
              \<bar>y\<bar> \<le> (1 - dry_wet s) * \<bar>R ! j\<bar> + dry_wet s + 5 / 10 ^ 11) \<and>
        \<bar>L' ! j\<bar> \<le> ((1 - dry_wet s) * \<bar>L ! j\<bar> + dry_wet s + 5 / 10 ^ 11) * (1 + 1 / 2 ^ 24)
                     + 1 / 2 ^ 150 \<and>
        \<bar>R' ! j\<bar> \<le> ((1 - dry_wet s) * \<bar>R ! j\<bar> + dry_wet s + 5 / 10 ^ 11) * (1 + 1 / 2 ^ 24)
                     + 1 / 2 ^ 150 \<and>
        (dry_wet s = 1 \<or> \<bar>L ! j\<bar> \<le> 1 \<longrightarrow> \<bar>L' ! j\<bar> \<le> 1) \<and>
        (dry_wet s = 1 \<or> \<bar>R ! j\<bar> \<le> 1 \<longrightarrow> \<bar>R' ! j\<bar> \<le> 1))"
proof -
  let ?K = "process_locals s"
  let ?B = "\<lambda>x. (1 - dry_wet s) * \<bar>x\<bar> + dry_wet s + 5 / 10 ^ 11"
  let ?P = "\<lambda>x v. \<exists>y. v = float_store y \<and> \<bar>y\<bar> \<le> ?B x"
  have dw: "0 \<le> dry_wet s" "dry_wet s \<le> 1"
    using reachable_state_ok[OF assms(3,4,5)] by (simp_all add: state_ok_def params_ok_def)
  have K: "wet ?K = dry_wet s" "dry ?K = 1 - dry_wet s"
    by (simp_all add: process_locals_def Let_def)
  have step: "\<And>ch st x g y st' g'. ch < 2 \<Longrightarrow> True \<Longrightarrow> rng_ok rmax g \<Longrightarrow> True \<Longrightarrow>
      process_sample rmax ?K ch st x g = (y, st', g') \<Longrightarrow>
      ?P x (float_store y) \<and> True \<and> rng_ok rmax g'"
    using process_sample_bound[OF assms(1), of _ ?K] dw K by fastforce
  have "\<exists>st' L' R' g'. process_loop rmax ?K 0 n s L R g = Some (st', L', R', g') \<and>
      True \<and> rng_ok rmax g' \<and> length L' = length L \<and> length R' = length R \<and>
      (\<forall>j. j < 0 \<or> n \<le> int j \<longrightarrow> L' ! j = L ! j \<and> R' ! j = R ! j) \<and>
      (\<forall>j. 0 \<le> j \<and> int j < n \<longrightarrow> ?P (L ! j) (L' ! j) \<and> ?P (R ! j) (R' ! j))"
    by (rule process_loop_pointwise[where I = "\<lambda>_. True" and G = "rng_ok rmax"
          and A = "\<lambda>_. True" and P = ?P, OF step])
      (use assms in auto)
  then obtain s' L' R' g' where
    res: "process_loop rmax ?K 0 n s L R g = Some (s', L', R', g')"
      "length L' = length L" "length R' = length R"
    and b: "\<And>j. int j < n \<Longrightarrow> ?P (L ! j) (L' ! j) \<and> ?P (R ! j) (R' ! j)"
    by auto
  have a: "\<bar>v\<bar> \<le> ?B x * (1 + 1 / 2 ^ 24) + 1 / 2 ^ 150" if "?P x v" for x v :: real
  proof -
    from that obtain y where y: "v = float_store y" "\<bar>y\<bar> \<le> ?B x" by blast
    have "\<bar>y\<bar> * (1 + 1 / 2 ^ 24) \<le> ?B x * (1 + 1 / 2 ^ 24)"
      using y(2) by (intro mult_right_mono) simp_all
    with float_store_abs_le[of y] y(1) show ?thesis by linarith
  qed
  have c: "\<bar>v\<bar> \<le> 1" if "?P x v" "dry_wet s = 1 \<or> \<bar>x\<bar> \<le> 1" for x v :: real
  proof -
    from that(1) obtain y where y: "v = float_store y" "\<bar>y\<bar> \<le> ?B x" by blast
    have "(1 - dry_wet s) * \<bar>x\<bar> \<le> 1 - dry_wet s"
      using that(2) dw by (auto simp: mult_left_le)
    with y(2) have "\<bar>y\<bar> \<le> 1 + 5 / 10 ^ 11" by linarith
    then show ?thesis unfolding y(1) by (rule float_store_unit)
  qed
  have "\<forall>j. int j < n \<longrightarrow>
        ?P (L ! j) (L' ! j) \<and> ?P (R ! j) (R' ! j) \<and>
        \<bar>L' ! j\<bar> \<le> ?B (L ! j) * (1 + 1 / 2 ^ 24) + 1 / 2 ^ 150 \<and>
        \<bar>R' ! j\<bar> \<le> ?B (R ! j) * (1 + 1 / 2 ^ 24) + 1 / 2 ^ 150 \<and>
        (dry_wet s = 1 \<or> \<bar>L ! j\<bar> \<le> 1 \<longrightarrow> \<bar>L' ! j\<bar> \<le> 1) \<and>
        (dry_wet s = 1 \<or> \<bar>R ! j\<bar> \<le> 1 \<longrightarrow> \<bar>R' ! j\<bar> \<le> 1)"
    using b a c by blast
  with res show ?thesis
    by (simp add: process_stereo_Some)
qed

text \<open>The theorem at the created instance (fully wet), on inputs outside \<open>[-1,1]\<close>.\<close>

theorem process_output_bound_witness:
  "(0::int) < 32767 \<and> rng_ok 32767 zero_rng \<and> (1::real) / 1000 \<le> 48000 \<and> (0::real) \<le> 3 \<and>
   reachable 48000 3 state_48k \<and>
   (1::int) \<le> int (length [2::real]) \<and> (1::int) \<le> int (length [- 3::real]) \<and>
   (\<exists>s' L' R' g'.
      buttercomp2_process_stereo 32767 (Some state_48k) (Some [2]) (Some [- 3]) 1 zero_rng
        = Some (Some s', Some L', Some R', g') \<and>
      \<bar>L' ! 0\<bar> \<le> 1 \<and> \<bar>R' ! 0\<bar> \<le> 1)"
proof -
  have h: "(0::int) < 32767" "rng_ok 32767 zero_rng" "(1::real) / 1000 \<le> 48000" "(0::real) \<le> 3"
    "reachable 48000 3 state_48k" "\<forall>x \<in> set [2] \<union> set [- 3]. \<bar>x\<bar> \<le> (3::real)"
    "(1::int) \<le> int (length [2::real])" "(1::int) \<le> int (length [- 3::real])"
    by (simp_all add: rng_ok_zero reachable.create create_Some state_48k_def)
  have d: "dry_wet state_48k = 1" by (simp add: state_48k_def zeroed_def)
  from process_output_bound[OF h] d have
    "\<exists>s' L' R' g'.
      buttercomp2_process_stereo 32767 (Some state_48k) (Some [2]) (Some [- 3]) 1 zero_rng
        = Some (Some s', Some L', Some R', g') \<and>
      \<bar>L' ! 0\<bar> \<le> 1 \<and> \<bar>R' ! 0\<bar> \<le> 1"
    by (auto simp del: float_store_2)
  with h show ?thesis by blast
qed

text \<open>The claim as stated fails: with \<open>dry_wet = 0\<close> the left sample 2 is written back
  as 2 (the first sample of the left channel gets no dither, and 2 is a
  single-precision number).\<close>

theorem process_output_range_counterexample:
  "result_left (buttercomp2_process_stereo 32767
      (buttercomp2_set_dry_wet (buttercomp2_create True 48000) (Finite 0))
      (Some [2]) (Some [0]) 1 zero_rng) = Some [2] \<and>
   \<not> ((2::real) \<le> 1 + 5 / 10 ^ 11)"
  by (simp add: eval_defs)

subsection \<open>C2: when creation fails\<close>

text \<open>
  C2, as amended. \<open>buttercomp2_create\<close> returns a null instance if and only if the
  allocation fails. The sample rate is not examined: whenever the allocation succeeds,
  the instance holds the given sample rate, zero or negative ones too, with the
  default parameters and a zeroed running state.
\<close>

theorem create_fails_iff_alloc_fails:
  "(buttercomp2_create alloc_ok sr = None \<longleftrightarrow> \<not> alloc_ok) \<and>
   buttercomp2_create False sr = None \<and>
   buttercomp2_create True sr =
     Some (zeroed\<lparr> sample_rate := sr, compress := 0, output := 0.5, dry_wet := 1,
                    fpflip := 1 \<rparr>)"
  by (simp add: buttercomp2_create_def calloc_state_def)

text \<open>The claim as stated fails: a negative sample rate and a zero one give an
  instance.\<close>

theorem create_nonpositive_rate_counterexample:
  "buttercomp2_create True (- 1) =
     Some (zeroed\<lparr> sample_rate := - 1, compress := 0, output := 0.5, dry_wet := 1,
                    fpflip := 1 \<rparr>) \<and>
   buttercomp2_create True 0 \<noteq> None"
  by (simp add: buttercomp2_create_def calloc_state_def)

subsection \<open>C3: the envelope follower and the division on transients\<close>

text \<open>
  C3. The envelope half of the claim holds in the code: \<open>second_stage_envelope\<close> is the
  fast-attack, slow-release follower of the specification. The branch that divides is
  the one of the specification too: \<open>dynamic_compression\<close> divides by
  \<open>1 + compressAmount * 0.1\<close> exactly when the absolute value exceeds 1.1 times the
  envelope it reads. But it reads the envelope after the follower has absorbed the
  sample, not the level tracked so far, and so never divides. On the first sample
  \<open>0.25\<close> of the instance created at 48 kHz with \<open>compress = 1\<close> the tracked level is 0
  and the sample after the gain stage is positive: step 6 of the specification divides
  it by 2.4 and the sample written would be \<open>0.25\<close>; the code leaves it undivided and
  writes \<open>5033165 / 8388608\<close> (about \<open>0.6\<close>).
\<close>

theorem transient_division_not_applied:
  "second_stage_envelope ch a st =
     st\<lparr> avg_A := (avg_A st)(ch := spec_envelope_follower (avg_A st ch) a) \<rparr> \<and>
   dynamic_compression K ch \<bar>x\<bar> x st =
     spec_transient_division (compress_amount K) (avg_A st ch) x \<and>
   (let K0 = process_locals state_48k_driven;
        x1 = input_conditioning K0 (1 / 4);
        (x2, st2) = apply_compression K0 0 x1 (control_smoothing 0 x1 state_48k_driven)
    in avg_A st2 0 = 0 \<and> 0 < x2 \<and> \<bar>x2\<bar> > avg_A st2 0 * 1.1 \<and>
       spec_second_stage (compress_amount K0) (avg_A st2 0) x2 = (x2 / 2.4, \<bar>x2\<bar>) \<and>
       float_store (soft_limit (x2 / 2.4 * output_gain K0)) = 1 / 4 \<and>
       dynamic_compression K0 0 \<bar>x2\<bar> x2 (second_stage_envelope 0 \<bar>x2\<bar> st2) = x2 \<and>
       float_store (soft_limit (x2 * output_gain K0)) = 5033165 / 8388608) \<and>
   buttercomp2_set_compress (buttercomp2_create True 48000) (Finite 1) = Some state_48k_driven \<and>
   result_left (buttercomp2_process_stereo 32767 (Some state_48k_driven)
      (Some [1 / 4]) (Some [0]) 1 zero_rng) = Some [5033165 / 8388608]"
proof -
  define K where "K = process_locals state_48k_driven"
  define x2 :: real where "x2 = (3 / 5) / (1 + 21 / 1200000000000)"
  have K: "compress_amount K = 14" "output_gain K = 1" "wet K = 1" "dry K = 0"
    "release_speed K = 1 / 48000000"
    by (simp_all add: K_def process_locals_def Let_def state_48k_driven_def state_48k_def
        zeroed_def)
  have x1: "input_conditioning K (1 / 4) = 3 / 5"
    by (simp add: input_conditioning_def K)
  obtain st2 where ac: "apply_compression K 0 (3 / 5) (control_smoothing 0 (3 / 5) state_48k_driven)
      = (x2, st2)" and avg: "avg_A st2 0 = 0" and fp: "fpflip st2 = 1"
    by (simp add: apply_compression_def control_smoothing_def Let_def K x2_def
        state_48k_driven_def state_48k_def zeroed_def)
  have pos: "0 < x2" by (simp add: x2_def)
  have spec: "spec_second_stage 14 0 x2 = (x2 / 2.4, \<bar>x2\<bar>)"
    using pos by (simp add: spec_second_stage_def spec_transient_division_def
        spec_envelope_follower_def)
  have code: "dynamic_compression K 0 \<bar>x2\<bar> x2 (second_stage_envelope 0 \<bar>x2\<bar> st2) = x2"
    using envelope_test_false[where x = x2 and ch = 0 and st = st2]
    by (simp add: dynamic_compression_def Let_def)
  have lim: "soft_limit x2 = x2" "soft_limit (x2 / 2.4) = x2 / 2.4"
    by (simp_all add: soft_limit_def Let_def x2_def)
  have w_code: "float_store x2 = 5033165 / 8388608"
    using float_store_eval[of "- 1" x2]
    by (simp add: x2_def round_even_def Let_def power_int_minus)
  have w_spec: "float_store (x2 / 2.4) = 1 / 4"
    using float_store_eval[of "- 3" "x2 / 2.4"]
    by (simp add: x2_def round_even_def Let_def power_int_minus)
  have w_spec': "float_store (soft_limit (x2 / 2.4 * output_gain K)) = 1 / 4"
    by (simp only: K mult_1_right lim w_spec)
  have w_code': "float_store (soft_limit (x2 * output_gain K)) = 5033165 / 8388608"
    by (simp only: K mult_1_right lim w_code)
  have step: "(let K0 = process_locals state_48k_driven;
        x1 = input_conditioning K0 (1 / 4);
        (x2, st2) = apply_compression K0 0 x1 (control_smoothing 0 x1 state_48k_driven)
    in avg_A st2 0 = 0 \<and> 0 < x2 \<and> \<bar>x2\<bar> > avg_A st2 0 * 1.1 \<and>
       spec_second_stage (compress_amount K0) (avg_A st2 0) x2 = (x2 / 2.4, \<bar>x2\<bar>) \<and>
       float_store (soft_limit (x2 / 2.4 * output_gain K0)) = 1 / 4 \<and>
       dynamic_compression K0 0 \<bar>x2\<bar> x2 (second_stage_envelope 0 \<bar>x2\<bar> st2) = x2 \<and>
       float_store (soft_limit (x2 * output_gain K0)) = 5033165 / 8388608)"
    unfolding Let_def K_def[symmetric] x1 ac
    using avg pos spec code w_code' w_spec' by (simp add: K(1))
  have set: "buttercomp2_set_compress (buttercomp2_create True 48000) (Finite 1)
      = Some state_48k_driven"
    by (simp add: buttercomp2_set_compress_def create_Some clamp01_cases state_48k_driven_def
        state_48k_def)
  have fp': "fpflip (second_stage_envelope 0 \<bar>x2\<bar> st2) = 1"
    using fp by (simp add: second_stage_envelope_def)
  have "process_sample 32767 K 0 state_48k_driven (1 / 4) zero_rng
      = dither 32767 x2 (second_stage_envelope 0 \<bar>x2\<bar> st2) zero_rng"
    by (simp only: process_sample_def Let_def x1 ac prod.case code K mult_1_right lim
        mult_zero_right add_0)
  then have p0: "\<exists>st' g'. process_sample 32767 K 0 state_48k_driven (1 / 4) zero_rng
      = (x2, st', g')"
    using fp' by (simp add: dither_def Let_def)
  then obtain st' g' where p0': "process_sample 32767 K 0 state_48k_driven (1 / 4) zero_rng
      = (x2, st', g')" by blast
  obtain r st'' g'' where p1: "process_sample 32767 K 1 st' 0 g' = (r, st'', g'')"
    by (cases "process_sample 32767 K 1 st' 0 g'") auto
  have "process_loop 32767 K 0 1 state_48k_driven [1 / 4] [0] zero_rng
      = Some (st'', [float_store x2], [float_store r], g'')"
    using process_loop_step[of 0 1 "[1 / 4]" "[0]" 32767 K state_48k_driven zero_rng x2 st' g'
        r st'' g''] p0' p1
    by (simp add: process_loop_done)
  then have run: "result_left (buttercomp2_process_stereo 32767 (Some state_48k_driven)
      (Some [1 / 4]) (Some [0]) 1 zero_rng) = Some [5033165 / 8388608]"
    by (simp add: process_stereo_Some K_def result_left_def w_code)
  show ?thesis
    using second_stage_envelope_follows dynamic_compression_divides step set run by blast
qed

subsection \<open>C4: the second-stage division never runs\<close>



subsection \<open>C5: a stream split over two calls\<close>

text \<open>
  C5. For every starting state, all parameter settings, every generator, and buffers
  holding \<open>n1 + n2\<close> samples: the call on the first \<open>n1\<close> samples returns, the call on
  the next \<open>n2\<close> samples (both pointers advanced by \<open>n1\<close>) from the state and the
  generator it left returns, and the single call on \<open>n1 + n2\<close> samples returns the same
  final state, the same generator and the same samples: those of the first call
  followed by those of the second.
\<close>

theorem split_calls:
  assumes "n1 + n2 \<le> length L" "n1 + n2 \<le> length R"
  shows "\<exists>s1 L1 R1 g1 s2 L2 R2 g2.
     buttercomp2_process_stereo rmax (Some s) (Some L) (Some R) (int n1) g
       = Some (Some s1, Some L1, Some R1, g1) \<and>
     buttercomp2_process_stereo rmax (Some s1) (Some (drop n1 L1)) (Some (drop n1 R1)) (int n2) g1
       = Some (Some s2, Some L2, Some R2, g2) \<and>
     buttercomp2_process_stereo rmax (Some s) (Some L) (Some R) (int (n1 + n2)) g
       = Some (Some s2, Some (take n1 L1 @ L2), Some (take n1 R1 @ R2), g2)"
proof -
  let ?K = "process_locals s"
  obtain s1 L1 R1 g1 where
    first: "process_loop rmax ?K 0 (int n1) s L R g = Some (s1, L1, R1, g1)"
    and K1: "process_locals s1 = ?K" and len1: "length L1 = length L" "length R1 = length R"
    using process_loop_total[of "int n1" L R rmax ?K 0 s g] assms by auto
  obtain s2 L2 R2 g2 where
    second: "process_loop rmax ?K 0 (int n2) s1 (drop n1 L1) (drop n1 R1) g1
               = Some (s2, L2, R2, g2)"
    using process_loop_total[of "int n2" "drop n1 L1" "drop n1 R1" rmax ?K 0 s1 g1] assms len1
    by auto
  have tl: "length (take n1 L1) = n1" "length (take n1 R1) = n1" using assms len1 by auto
  have "process_loop rmax ?K 0 (int (n1 + n2)) s L R g
        = process_loop rmax ?K n1 (int (n1 + n2)) s1 L1 R1 g1"
    using process_loop_split[of 0 n1 "int (n1 + n2)" rmax ?K s L R g] first by simp
  also have "\<dots> = process_loop rmax ?K (n1 + 0) (int n1 + int n2) s1
                     (take n1 L1 @ drop n1 L1) (take n1 R1 @ drop n1 R1) g1"
    by simp
  also have "\<dots> = map_option (\<lambda>(st', L', R', g'). (st', take n1 L1 @ L', take n1 R1 @ R', g'))
       (process_loop rmax ?K 0 (int n2) s1 (drop n1 L1) (drop n1 R1) g1)"
    by (rule process_loop_shift[OF tl])
  finally have whole: "process_loop rmax ?K 0 (int (n1 + n2)) s L R g
      = Some (s2, take n1 L1 @ L2, take n1 R1 @ R2, g2)"
    using second by simp
  show ?thesis
    using first second whole K1 by (simp add: process_stereo_Some)
qed

text \<open>The theorem on two samples per channel, split as 1 + 1.\<close>

theorem split_calls_witness:
  "(1::nat) + 1 \<le> length [1 / 2, 1 / 4 :: real] \<and>
   (1::nat) + 1 \<le> length [- 1 / 2, 0 :: real] \<and>
   (\<exists>s1 L1 R1 g1 s2 L2 R2 g2.
     buttercomp2_process_stereo 32767 (Some state_48k) (Some [1 / 2, 1 / 4])
         (Some [- 1 / 2, 0]) (int 1) zero_rng
       = Some (Some s1, Some L1, Some R1, g1) \<and>
     buttercomp2_process_stereo 32767 (Some s1) (Some (drop 1 L1)) (Some (drop 1 R1)) (int 1) g1
       = Some (Some s2, Some L2, Some R2, g2) \<and>
     buttercomp2_process_stereo 32767 (Some state_48k) (Some [1 / 2, 1 / 4])
         (Some [- 1 / 2, 0]) (int (1 + 1)) zero_rng
       = Some (Some s2, Some (take 1 L1 @ L2), Some (take 1 R1 @ R2), g2))"
proof -
  have h: "(1::nat) + 1 \<le> length [1 / 2, 1 / 4 :: real]"
    "(1::nat) + 1 \<le> length [- 1 / 2, 0 :: real]"
    by simp_all
  from split_calls[OF h, where rmax = 32767 and s = state_48k and g = zero_rng] h
  show ?thesis by blast
qed

subsection \<open>C6: the dry bypass\<close>

text \<open>
  C6, as amended. With \<open>dry_wet = 0\<close>, for an instance created with a sample rate of at
  least \<open>0.001\<close>, in a state reached from creation on samples of absolute value at most
  \<open>M\<close>, whatever \<open>compress\<close> and \<open>output\<close> are, on buffers of such samples holding the \<open>n\<close>
  samples asked for and a generator within its range, the call returns and every
  sample it writes is the single-precision rounding of a value within the dither
  magnitude \<open>5e-11\<close> of the input sample; so it differs from the input sample by at
  most \<open>5e-11\<close> plus the rounding \<open>(|input| + 5e-11) * 2^-24 + 2^-150\<close>. The samples
  beyond the first \<open>n\<close> are left as they are.
\<close>

theorem dry_bypass:
  assumes "0 < rmax" "rng_ok rmax g" "1 / 1000 \<le> sr" "0 \<le> M" "reachable sr M s"
    and "dry_wet s = 0"
    and "\<forall>x \<in> set L \<union> set R. \<bar>x\<bar> \<le> M" "n \<le> int (length L)" "n \<le> int (length R)"
  shows "\<exists>s' L' R' g'.
     buttercomp2_process_stereo rmax (Some s) (Some L) (Some R) n g
       = Some (Some s', Some L', Some R', g') \<and>
     length L' = length L \<and> length R' = length R \<and>
     (\<forall>j. int j < n \<longrightarrow>
        (\<exists>y. L' ! j = float_store y \<and> \<bar>y - L ! j\<bar> \<le> 5 / 10 ^ 11) \<and>
        (\<exists>y. R' ! j = float_store y \<and> \<bar>y - R ! j\<bar> \<le> 5 / 10 ^ 11) \<and>
        \<bar>L' ! j - L ! j\<bar> \<le> 5 / 10 ^ 11 + (\<bar>L ! j\<bar> + 5 / 10 ^ 11) / 2 ^ 24 + 1 / 2 ^ 150 \<and>
        \<bar>R' ! j - R ! j\<bar> \<le> 5 / 10 ^ 11 + (\<bar>R ! j\<bar> + 5 / 10 ^ 11) / 2 ^ 24 + 1 / 2 ^ 150) \<and>
     (\<forall>j. n \<le> int j \<longrightarrow> L' ! j = L ! j \<and> R' ! j = R ! j)"
proof -
  let ?K = "process_locals s"
  let ?P = "\<lambda>x v :: real. \<exists>y. v = float_store y \<and> \<bar>y - x\<bar> \<le> 5 / 10 ^ 11"
  have K: "wet ?K = 0" "dry ?K = 1" using assms(6) by (simp_all add: process_locals_def Let_def)
  have step: "\<And>ch st x g y st' g'. ch < 2 \<Longrightarrow> True \<Longrightarrow> rng_ok rmax g \<Longrightarrow> True \<Longrightarrow>
      process_sample rmax ?K ch st x g = (y, st', g') \<Longrightarrow>
      ?P x (float_store y) \<and> True \<and> rng_ok rmax g'"
    using process_sample_dry[OF assms(1) _ K] by fastforce
  have "\<exists>st' L' R' g'. process_loop rmax ?K 0 n s L R g = Some (st', L', R', g') \<and>
      True \<and> rng_ok rmax g' \<and> length L' = length L \<and> length R' = length R \<and>
      (\<forall>j. j < 0 \<or> n \<le> int j \<longrightarrow> L' ! j = L ! j \<and> R' ! j = R ! j) \<and>
      (\<forall>j. 0 \<le> j \<and> int j < n \<longrightarrow> ?P (L ! j) (L' ! j) \<and> ?P (R ! j) (R' ! j))"
    by (rule process_loop_pointwise[where I = "\<lambda>_. True" and G = "rng_ok rmax"
          and A = "\<lambda>_. True" and P = ?P, OF step])
      (use assms in auto)
  then obtain s' L' R' g' where
    res: "process_loop rmax ?K 0 n s L R g = Some (s', L', R', g')"
      "length L' = length L" "length R' = length R"
    and same: "\<And>j. n \<le> int j \<Longrightarrow> L' ! j = L ! j \<and> R' ! j = R ! j"
    and b: "\<And>j. int j < n \<Longrightarrow> ?P (L ! j) (L' ! j) \<and> ?P (R ! j) (R' ! j)"
    by auto
  have a: "\<bar>v - x\<bar> \<le> 5 / 10 ^ 11 + (\<bar>x\<bar> + 5 / 10 ^ 11) / 2 ^ 24 + 1 / 2 ^ 150"
    if "?P x v" for x v :: real
  proof -
    from that obtain y where y: "v = float_store y" "\<bar>y - x\<bar> \<le> 5 / 10 ^ 11" by blast
    have "\<bar>y\<bar> \<le> \<bar>x\<bar> + 5 / 10 ^ 11" using y(2) by linarith
    then have "\<bar>y\<bar> / 2 ^ 24 \<le> (\<bar>x\<bar> + 5 / 10 ^ 11) / 2 ^ 24"
      by (intro divide_right_mono) simp_all
    with float_store_error[of y] y show ?thesis by linarith
  qed
  have "\<forall>j. int j < n \<longrightarrow>
        ?P (L ! j) (L' ! j) \<and> ?P (R ! j) (R' ! j) \<and>
        \<bar>L' ! j - L ! j\<bar> \<le> 5 / 10 ^ 11 + (\<bar>L ! j\<bar> + 5 / 10 ^ 11) / 2 ^ 24 + 1 / 2 ^ 150 \<and>
        \<bar>R' ! j - R ! j\<bar> \<le> 5 / 10 ^ 11 + (\<bar>R ! j\<bar> + 5 / 10 ^ 11) / 2 ^ 24 + 1 / 2 ^ 150"
    using b a by blast
  with res same show ?thesis
    by (simp add: process_stereo_Some)
qed

text \<open>The theorem at the created instance set fully dry.\<close>

theorem dry_bypass_witness:
  "(0::int) < 32767 \<and> rng_ok 32767 zero_rng \<and> (1::real) / 1000 \<le> 48000 \<and> (0::real) \<le> 3 \<and>
   reachable 48000 3 (state_48k\<lparr> dry_wet := 0 \<rparr>) \<and>
   dry_wet (state_48k\<lparr> dry_wet := 0 \<rparr>) = 0 \<and>
   (1::int) \<le> int (length [2::real]) \<and> (1::int) \<le> int (length [- 3::real]) \<and>
   (\<exists>s' L' R' g'.
      buttercomp2_process_stereo 32767 (Some (state_48k\<lparr> dry_wet := 0 \<rparr>))
          (Some [2]) (Some [- 3]) 1 zero_rng
        = Some (Some s', Some L', Some R', g') \<and>
      (\<exists>y. L' ! 0 = float_store y \<and> \<bar>y - 2\<bar> \<le> 5 / 10 ^ 11) \<and>
      (\<exists>y. R' ! 0 = float_store y \<and> \<bar>y - (- 3)\<bar> \<le> 5 / 10 ^ 11))"
proof -
  have c: "reachable 48000 3 state_48k"
    by (simp add: reachable.create create_Some state_48k_def)
  have r: "reachable 48000 3 (state_48k\<lparr> dry_wet := 0 \<rparr>)"
    by (rule reachable.set_dry_wet[OF c, of "Finite 0"])
      (simp add: buttercomp2_set_dry_wet_def clamp01_cases)
  have h: "(0::int) < 32767" "rng_ok 32767 zero_rng" "(1::real) / 1000 \<le> 48000" "(0::real) \<le> 3"
    "reachable 48000 3 (state_48k\<lparr> dry_wet := 0 \<rparr>)"
    "dry_wet (state_48k\<lparr> dry_wet := 0 \<rparr>) = 0"
    "\<forall>x \<in> set [2] \<union> set [- 3]. \<bar>x\<bar> \<le> (3::real)"
    "(1::int) \<le> int (length [2::real])" "(1::int) \<le> int (length [- 3::real])"
    using r by (simp_all add: rng_ok_zero)
  from dry_bypass[OF h] obtain s' L' R' g' where
    p: "buttercomp2_process_stereo 32767 (Some (state_48k\<lparr> dry_wet := 0 \<rparr>))
          (Some [2]) (Some [- 3]) 1 zero_rng
        = Some (Some s', Some L', Some R', g')"
    and b: "\<And>j. int j < 1 \<Longrightarrow>
        (\<exists>y. L' ! j = float_store y \<and> \<bar>y - [2] ! j\<bar> \<le> 5 / 10 ^ 11) \<and>
        (\<exists>y. R' ! j = float_store y \<and> \<bar>y - [- 3] ! j\<bar> \<le> 5 / 10 ^ 11)"
    by blast
  from b[of 0] have "(\<exists>y. L' ! 0 = float_store y \<and> \<bar>y - 2\<bar> \<le> 5 / 10 ^ 11) \<and>
      (\<exists>y. R' ! 0 = float_store y \<and> \<bar>y - (- 3)\<bar> \<le> 5 / 10 ^ 11)"
    by simp
  with p h show ?thesis by blast
qed

text \<open>The claim as stated fails: with \<open>dry_wet = 0\<close>, the right sample \<open>1/2048\<close> and
  \<^verbatim>\<open>rand()\<close> returning \<^verbatim>\<open>RAND_MAX\<close> (here 32767), the dither \<open>5e-11\<close> carries the value past
  the midpoint to the next single-precision number, and the sample is written back
  as \<open>1/2048 + 2^-34\<close>, which is \<open>5.82e-11\<close> away from the input.\<close>

theorem dry_bypass_counterexample:
  "result_right (buttercomp2_process_stereo 32767
      (buttercomp2_set_dry_wet (buttercomp2_create True 48000) (Finite 0))
      (Some [0]) (Some [1 / 2048]) 1 full_rng) = Some [1 / 2048 + 1 / 2 ^ 34] \<and>
   \<not> (\<bar>(1 / 2048 + 1 / 2 ^ 34) - 1 / 2048\<bar> \<le> (5 / 10 ^ 11 :: real))"
proof -
  have f: "float_store (1 / 2048 + 5 / 10 ^ 11) = 1 / 2048 + 1 / 2 ^ 34"
    using float_store_eval[of "- 11" "1 / 2048 + 5 / 10 ^ 11"]
    by (simp add: round_even_def Let_def power_int_minus)
  have z: "float_store 0 = 0" by (simp add: float_store_def)
  show ?thesis
    using f by (simp add: eval_defs z)
qed

subsection \<open>C7: the setters clamp\<close>

text \<open>
  C7. Each of the three setters, on an instance and any argument, returns the instance
  with the parameter replaced by a value in \<open>[0,1]\<close> and nothing else changed; on a null
  instance it does nothing. The stored value is the argument when that lies in
  \<open>[0,1]\<close>, the nearer end of the interval for a finite argument outside it, 1 for
  \<open>+infinity\<close>, 0 for \<open>-infinity\<close>, and 1 for NaN.
\<close>

theorem setters_clamp:
  "buttercomp2_set_compress (Some s) v = Some (s\<lparr> compress := stored (clamp01 v) \<rparr>) \<and>
   buttercomp2_set_output (Some s) v = Some (s\<lparr> output := stored (clamp01 v) \<rparr>) \<and>
   buttercomp2_set_dry_wet (Some s) v = Some (s\<lparr> dry_wet := stored (clamp01 v) \<rparr>) \<and>
   buttercomp2_set_compress None v = None \<and>
   buttercomp2_set_output None v = None \<and>
   buttercomp2_set_dry_wet None v = None \<and>
   clamp01 v = Finite (stored (clamp01 v)) \<and>
   0 \<le> stored (clamp01 v) \<and> stored (clamp01 v) \<le> 1 \<and>
   stored (clamp01 (Finite r)) = max 0 (min 1 r) \<and>
   stored (clamp01 PosInf) = 1 \<and> stored (clamp01 NegInf) = 0 \<and> stored (clamp01 NaN) = 1"
proof -
  have "clamp01 v = Finite (stored (clamp01 v))"
    by (cases v) (simp_all add: clamp01_cases)
  moreover have "stored (clamp01 (Finite r)) = max 0 (min 1 r)"
    by (simp add: clamp01_cases)
  ultimately show ?thesis
    using stored_clamp01[of v]
    by (simp add: buttercomp2_set_compress_def buttercomp2_set_output_def
        buttercomp2_set_dry_wet_def clamp01_cases)
qed

subsection \<open>C8: reset\<close>

text \<open>
  C8. \<open>buttercomp2_reset\<close> sets the ten per-channel fields of both channels to zero
  and changes nothing else: the sample rate, the three parameters and the dither phase
  are kept. Resetting twice gives the state that resetting once gives, and a null
  instance is left alone.
\<close>

theorem reset_zeroes_and_is_idempotent:
  "buttercomp2_reset (Some s) =
     Some (s\<lparr> control_A_pos := (control_A_pos s)(0 := 0, 1 := 0),
              control_A_neg := (control_A_neg s)(0 := 0, 1 := 0),
              control_B_pos := (control_B_pos s)(0 := 0, 1 := 0),
              control_B_neg := (control_B_neg s)(0 := 0, 1 := 0),
              target_pos := (target_pos s)(0 := 0, 1 := 0),
              target_neg := (target_neg s)(0 := 0, 1 := 0),
              avg_A := (avg_A s)(0 := 0, 1 := 0),
              avg_B := (avg_B s)(0 := 0, 1 := 0),
              dyn_A := (dyn_A s)(0 := 0, 1 := 0),
              dyn_B := (dyn_B s)(0 := 0, 1 := 0) \<rparr>) \<and>
   map_option sample_rate (buttercomp2_reset (Some s)) = Some (sample_rate s) \<and>
   map_option compress (buttercomp2_reset (Some s)) = Some (compress s) \<and>
   map_option output (buttercomp2_reset (Some s)) = Some (output s) \<and>
   map_option dry_wet (buttercomp2_reset (Some s)) = Some (dry_wet s) \<and>
   map_option fpflip (buttercomp2_reset (Some s)) = Some (fpflip s) \<and>
   buttercomp2_reset (buttercomp2_reset state) = buttercomp2_reset state \<and>
   buttercomp2_reset None = None"
proof -
  have idem: "buttercomp2_reset (buttercomp2_reset state) = buttercomp2_reset state"
  proof (cases state)
    case None
    then show ?thesis by (simp add: buttercomp2_reset_def)
  next
    case (Some t)
    then show ?thesis by (simp add: reset_Some)
  qed
  have "buttercomp2_reset None = None" by (simp add: buttercomp2_reset_def)
  with idem show ?thesis by (simp add: reset_Some)
qed

subsection \<open>C9: calls that do nothing\<close>

text \<open>
  C9. A call of \<open>buttercomp2_process_stereo\<close> with a null state, a null left buffer, a
  null right buffer, or \<open>num_samples = 0\<close> returns with the state, both buffers and the
  generator as they were.
\<close>

theorem process_noop:
  "buttercomp2_process_stereo rmax None left right n g = Some (None, left, right, g) \<and>
   buttercomp2_process_stereo rmax state None right n g = Some (state, None, right, g) \<and>
   buttercomp2_process_stereo rmax state left None n g = Some (state, left, None, g) \<and>
   buttercomp2_process_stereo rmax state left right 0 g = Some (state, left, right, g)"
  by (auto simp: buttercomp2_process_stereo_def process_loop_done split: option.splits)

subsection \<open>C10: the divisors and the running state stay bounded\<close>

text \<open>
  C10, as amended. For an instance created with a sample rate of at least \<open>0.001\<close> (so
  that the release step \<open>0.001 / sample_rate\<close> is at most 1), in every state reached
  from creation by setters, resets and calls of \<open>buttercomp2_process_stereo\<close> on samples
  of absolute value at most \<open>M\<close>: the sample rate is the one of creation, the parameters
  lie in \<open>[0,1]\<close>, the targets and the envelope of both channels lie within \<open>2.4 * M\<close> and
  the controls within \<open>3.36 * M\<close> of zero on their side, and the divisors
  \<open>1 + control_A_pos\<close> and \<open>1 + |control_A_neg|\<close> are at least 1, so that no step divides
  by zero. (The divisor of a step is read in the state the step leaves.)
\<close>

theorem divisors_ge_one:
  assumes "1 / 1000 \<le> sr" "0 \<le> M" "reachable sr M s"
  shows "state_ok sr M s \<and>
     1 \<le> 1 + control_A_pos s 0 \<and> 1 \<le> 1 + control_A_pos s 1 \<and>
     1 \<le> 1 + \<bar>control_A_neg s 0\<bar> \<and> 1 \<le> 1 + \<bar>control_A_neg s 1\<bar>"
  using reachable_state_ok[OF assms] by (simp add: state_ok_def channel_ok_def)

text \<open>The theorem at the state that one call leaves in the instance created at
  48 kHz.\<close>

theorem divisors_ge_one_witness:
  "(1::real) / 1000 \<le> 48000 \<and> (0::real) \<le> 1 \<and>
   (\<exists>s. result_state (buttercomp2_process_stereo 32767 (Some state_48k)
            (Some [1 / 2]) (Some [- 1]) 1 zero_rng) = Some s \<and>
      reachable 48000 1 s \<and> state_ok 48000 1 s \<and>
      1 \<le> 1 + control_A_pos s 0 \<and> 1 \<le> 1 + control_A_pos s 1 \<and>
      1 \<le> 1 + \<bar>control_A_neg s 0\<bar> \<and> 1 \<le> 1 + \<bar>control_A_neg s 1\<bar>)"
proof -
  have h: "(1::real) / 1000 \<le> 48000" "(0::real) \<le> 1" by simp_all
  have c: "reachable 48000 1 state_48k"
    by (simp add: reachable.create create_Some state_48k_def)
  obtain s L' R' g' where
    p: "buttercomp2_process_stereo 32767 (Some state_48k) (Some [1 / 2]) (Some [- 1]) 1 zero_rng
          = Some (Some s, Some L', Some R', g')"
    using process_stereo_total[of 1 "[1 / 2]" "[- 1]" 32767 state_48k zero_rng] by auto
  have r: "reachable 48000 1 s"
    by (rule reachable.process[OF c _ _ _ p]) simp_all
  from divisors_ge_one[OF h r] h r p show ?thesis
    by (simp add: result_state_def)
qed

text \<open>The claim as stated fails: at the positive sample rate \<open>1/10000\<close> the release step
  is 10, and after the left samples 1, 1 with \<open>compress = 1\<close> the divisor
  \<open>1 + control_A_pos\<close> of the left channel is below 1.\<close>

theorem small_rate_divisor_counterexample:
  "pos_divisor (result_state (buttercomp2_process_stereo 32767
      (buttercomp2_set_compress (buttercomp2_create True (1 / 10000)) (Finite 1))
      (Some [1, 1]) (Some [0, 0]) 2 zero_rng)) 0 = Some (7647664 / 10000000) \<and>
   (0::real) < 1 / 10000 \<and> \<not> ((1::real) \<le> 7647664 / 10000000)"
  by (simp add: eval_defs pos_divisor_def)

end
